theory Spec2Isabelle
  imports Main
begin

section \<open>Values, nodes and the cache state\<close>

text \<open>
  The values a caller can store. Numbers are restricted to integers; the only use the
  program makes of a stored value is to hand it back and, in the memoizing wrapper, to
  test its truthiness.
\<close>

datatype jsvalue = Undefined | Null | Boolean bool | Number int | Str string

fun truthy :: "jsvalue \<Rightarrow> bool" where
  "truthy Undefined = False"
| "truthy Null = False"
| "truthy (Boolean b) = b"
| "truthy (Number n) = (n \<noteq> 0)"
| "truthy (Str s) = (s \<noteq> [])"

text \<open>Reading a property of \<open>null\<close> or \<open>undefined\<close> throws a \<open>TypeError\<close>; nothing else in
  the class throws.\<close>

datatype error = TypeError

text \<open>
  Objects live in an explicit heap: a list of nodes, a reference being an index into it.
  \<open>new Node(...)\<close> appends to the list, so the new reference is the old length. A
  node that has been unlinked stays in the heap (nothing in the class clears its fields).
  The fields \<open>value\<close> and \<open>next\<close> of the source are \<open>val\<close> and \<open>nxt\<close> here. A key is a
  property key, that is, the string that \<open>this.cache[key]\<close> coerces its argument to.
\<close>

type_synonym addr = nat

record Node =
  key :: string
  val :: jsvalue
  nxt :: "addr option"
  prev :: "addr option"

text \<open>
  The fields of \<open>class LRU\<close>; \<open>size\<close> is \<open>size_lru\<close> here. In \<open>head\<close> and \<open>tail\<close>,
  \<open>None\<close> stands for \<open>null\<close> and for \<open>undefined\<close> alike: the class only tests them for
  truthiness or against \<open>null\<close> with \<open>!=\<close>, and reads their properties, which throws for
  both.

  The object \<open>this.cache = {}\<close> is two fields: \<open>cache\<close>, its own properties, and \<open>proto\<close>,
  its prototype, where \<open>None\<close> is \<open>Object.prototype\<close> and \<open>Some n\<close> the node \<open>n\<close> (the
  assignment \<open>this.cache["__proto__"] = this.head\<close> runs the setter inherited from
  \<open>Object.prototype\<close>, which replaces the prototype and creates no own property).
\<close>

record LRU =
  size_lru :: int
  limit :: int
  head :: "addr option"
  tail :: "addr option"
  cache :: "string \<rightharpoonup> addr"
  proto :: "addr option"
  heap :: "Node list"

text \<open>\<open>constructor(limit = 3)\<close>: an omitted argument is \<open>None\<close>.\<close>

definition LRU_constructor :: "int option \<Rightarrow> LRU" where
  "LRU_constructor lim =
     \<lparr>size_lru = 0, limit = (case lim of None \<Rightarrow> 3 | Some l \<Rightarrow> l),
      head = None, tail = None, cache = Map.empty, proto = None, heap = []\<rparr>"

section \<open>Property lookup on the index object\<close>

text \<open>
  The names of the properties of \<open>Object.prototype\<close> other than \<open>__proto__\<close> (ECMAScript
  with its Annex B). All of them are functions. \<open>Node.prototype\<close> adds no further name: its
  only property is \<open>constructor\<close>.
\<close>

definition Object_prototype_names :: "string list" where
  "Object_prototype_names =
     [''constructor'', ''__defineGetter__'', ''__defineSetter__'', ''hasOwnProperty'',
      ''__lookupGetter__'', ''__lookupSetter__'', ''isPrototypeOf'', ''propertyIsEnumerable'',
      ''toString'', ''valueOf'', ''toLocaleString'']"

text \<open>
  What \<open>this.cache[key]\<close> evaluates to: \<open>undefined\<close> when no object of the prototype
  chain has the property (\<open>Missing\<close>), a node, a primitive value (a field of a node that
  is the prototype), or a function or prototype object of the language (\<open>Builtin\<close>), which
  is truthy and has none of the properties \<open>value\<close>, \<open>next\<close>, \<open>prev\<close>.
\<close>

datatype found = Missing | Node_at addr | Primitive jsvalue | Builtin

fun truthy_found :: "found \<Rightarrow> bool" where
  "truthy_found Missing = False"
| "truthy_found (Node_at a) = True"
| "truthy_found (Primitive v) = truthy v"
| "truthy_found Builtin = True"

text \<open>
  \<open>this.cache[key]\<close>. The name \<open>__proto__\<close> is an accessor of \<open>Object.prototype\<close> whose
  getter returns the prototype of the index object. Any other name is looked up in the own
  properties first, then in the prototype chain: the node that is the prototype, if there
  is one, with its four fields, and then \<open>Node.prototype\<close> and \<open>Object.prototype\<close>.
\<close>

definition cache_get :: "LRU \<Rightarrow> string \<Rightarrow> found" where
  "cache_get s k =
     (if k = ''__proto__''
      then (case proto s of None \<Rightarrow> Builtin | Some n \<Rightarrow> Node_at n)
      else (case cache s k of
              Some a \<Rightarrow> Node_at a
            | None \<Rightarrow>
                (case proto s of
                   None \<Rightarrow> if k \<in> set Object_prototype_names then Builtin else Missing
                 | Some n \<Rightarrow>
                     if k = ''key'' then Primitive (Str (key (heap s ! n)))
                     else if k = ''value'' then Primitive (val (heap s ! n))
                     else if k = ''next''
                       then (case nxt (heap s ! n) of
                               None \<Rightarrow> Primitive Null | Some b \<Rightarrow> Node_at b)
                     else if k = ''prev''
                       then (case prev (heap s ! n) of
                               None \<Rightarrow> Primitive Null | Some b \<Rightarrow> Node_at b)
                     else if k \<in> set Object_prototype_names then Builtin
                     else Missing)))"

section \<open>The operations\<close>

text \<open>
  \<open>remove(key)\<close>. For a node, the two conditionals run one after the other on the heap
  as the first one left it. For any other value that is neither \<open>null\<close> nor \<open>undefined\<close>,
  \<open>node.next\<close> and \<open>node.prev\<close> are \<open>undefined\<close>, so both \<open>else\<close> branches run.
  \<open>delete this.cache[key]\<close> removes an own property and nothing else. The source returns
  \<open>null\<close> for an absent key and \<open>undefined\<close> otherwise; no caller looks at that result, so
  the model returns the state only.
\<close>

definition remove :: "string \<Rightarrow> LRU \<Rightarrow> LRU" where
  "remove k s =
     (case cache_get s k of
        Missing \<Rightarrow> s
      | Node_at a \<Rightarrow>
          let s1 = (case nxt (heap s ! a) of
                      Some n \<Rightarrow> s\<lparr>heap := (heap s)[n := (heap s ! n)\<lparr>prev := prev (heap s ! a)\<rparr>]\<rparr>
                    | None \<Rightarrow> s\<lparr>tail := prev (heap s ! a)\<rparr>);
              s2 = (case prev (heap s1 ! a) of
                      Some p \<Rightarrow> s1\<lparr>heap := (heap s1)[p := (heap s1 ! p)\<lparr>nxt := nxt (heap s1 ! a)\<rparr>]\<rparr>
                    | None \<Rightarrow> s1\<lparr>head := nxt (heap s1 ! a)\<rparr>)
          in s2\<lparr>cache := (cache s2)(k := None), size_lru := size_lru s2 - 1\<rparr>
      | Primitive v \<Rightarrow>
          if v = Undefined \<or> v = Null then s
          else s\<lparr>tail := None, head := None,
                 cache := (cache s)(k := None), size_lru := size_lru s - 1\<rparr>
      | Builtin \<Rightarrow>
          s\<lparr>tail := None, head := None,
            cache := (cache s)(k := None), size_lru := size_lru s - 1\<rparr>)"

text \<open>\<open>enforceLimit()\<close>: \<open>this.tail.key\<close> throws when \<open>tail\<close> is \<open>null\<close> or \<open>undefined\<close>.\<close>

definition enforceLimit :: "LRU \<Rightarrow> error + LRU" where
  "enforceLimit s =
     (if limit s = size_lru s
      then (case tail s of
              None \<Rightarrow> Inl TypeError
            | Some t \<Rightarrow> Inr (remove (key (heap s ! t)) s))
      else Inr s)"

text \<open>
  \<open>add(key, value)\<close>. The assignment \<open>this.cache[key] = this.head\<close> creates or overwrites
  an own property, except for the name \<open>__proto__\<close>, where it sets the prototype.
\<close>

definition add :: "string \<Rightarrow> jsvalue \<Rightarrow> LRU \<Rightarrow> error + LRU" where
  "add k v s =
     (case enforceLimit s of
        Inl e \<Rightarrow> Inl e
      | Inr s1 \<Rightarrow>
          let n = length (heap s1);
              s2 = (case head s1 of
                      None \<Rightarrow>
                        s1\<lparr>heap := heap s1 @ [\<lparr>key = k, val = v, nxt = None, prev = None\<rparr>],
                           head := Some n, tail := Some n\<rparr>
                    | Some h \<Rightarrow>
                        s1\<lparr>heap := (heap s1 @ [\<lparr>key = k, val = v, nxt = Some h, prev = None\<rparr>])
                                     [h := (heap s1 ! h)\<lparr>prev := Some n\<rparr>],
                           head := Some n\<rparr>);
              s3 = (if k = ''__proto__'' then s2\<lparr>proto := head s2\<rparr>
                    else s2\<lparr>cache := (cache s2)(k := head s2)\<rparr>)
          in Inr (s3\<lparr>size_lru := size_lru s3 + 1\<rparr>))"

text \<open>
  \<open>read(key)\<close>. The test \<open>if (this.cache[key])\<close> is on what the lookup finds, which for a
  node is truthy whatever its value. \<open>this.cache[key].value\<close> is the node's value, and
  \<open>undefined\<close> for anything else that is truthy.
\<close>

definition read :: "string \<Rightarrow> LRU \<Rightarrow> error + (jsvalue \<times> LRU)" where
  "read k s =
     (if truthy_found (cache_get s k)
      then (let v = (case cache_get s k of Node_at a \<Rightarrow> val (heap s ! a) | _ \<Rightarrow> Undefined)
            in (case add k v (remove k s) of
                  Inl e \<Rightarrow> Inl e
                | Inr s' \<Rightarrow> Inr (v, s')))
      else Inr (Null, s))"

text \<open>
  \<open>contentsArray()\<close>. The \<open>while\<close> loop follows \<open>next\<close> until it meets \<open>null\<close>; on a
  cyclic chain it never does, which is the result \<open>None\<close>. \<open>this.head.value\<close> throws
  when \<open>head\<close> is \<open>null\<close> or \<open>undefined\<close>.
\<close>

partial_function (option) contentsLoop ::
  "Node list \<Rightarrow> addr option \<Rightarrow> jsvalue list \<Rightarrow> jsvalue list option" where
  "contentsLoop h node valueList =
     (case node of
        None \<Rightarrow> Some valueList
      | Some a \<Rightarrow> contentsLoop h (nxt (h ! a)) (valueList @ [val (h ! a)]))"

declare contentsLoop.simps [code]

definition contentsArray :: "LRU \<Rightarrow> (error + jsvalue list) option" where
  "contentsArray s =
     (case head s of
        None \<Rightarrow> Some (Inl TypeError)
      | Some a \<Rightarrow> map_option Inr (contentsLoop (heap s) (nxt (heap s ! a)) [val (heap s ! a)]))"

text \<open>
  \<open>memoizedLRU(otherFunc)\<close>: the closure owns a cache of limit 3. The wrapped function
  is a pure function of the argument list; \<open>calls\<close> counts how often the closure has
  invoked it. \<open>JSON.stringify\<close> is the parameter \<open>stringify\<close>.
\<close>

record memoized =
  memo :: LRU
  calls :: nat

definition memoizedLRU :: memoized where
  "memoizedLRU = \<lparr>memo = LRU_constructor (Some 3), calls = 0\<rparr>"

definition memoized_call ::
  "(jsvalue list \<Rightarrow> string) \<Rightarrow> (jsvalue list \<Rightarrow> jsvalue) \<Rightarrow> jsvalue list \<Rightarrow> memoized
     \<Rightarrow> error + (jsvalue \<times> memoized)" where
  "memoized_call stringify otherFunc argsList m =
     (let k = stringify argsList
      in (case read k (memo m) of
            Inl e \<Rightarrow> Inl e
          | Inr (itemExists, s1) \<Rightarrow>
              if \<not> truthy itemExists
              then (let v = otherFunc argsList
                    in (case add k v s1 of
                          Inl e \<Rightarrow> Inl e
                        | Inr s2 \<Rightarrow> Inr (v, \<lparr>memo = s2, calls = calls m + 1\<rparr>)))
              else Inr (itemExists, \<lparr>memo = s1, calls = calls m\<rparr>)))"

text \<open>
  \<open>JSON.stringify\<close> on an array of the values modelled: integers in decimal, \<open>true\<close>,
  \<open>false\<close>, \<open>null\<close> (also for \<open>undefined\<close>, as inside an array), and strings in double
  quotes with \<open>"\<close> and \<open>\\<close> escaped (other characters are copied, which is what
  \<open>JSON.stringify\<close> does for printable ASCII).
\<close>

fun decimal :: "nat \<Rightarrow> string" where
  "decimal n =
     (if n < 10 then [''0123456789'' ! n]
      else decimal (n div 10) @ [''0123456789'' ! (n mod 10)])"

declare decimal.simps [simp del]

fun escape :: "string \<Rightarrow> string" where
  "escape [] = []"
| "escape (c # cs) =
     (if c = CHR 0x22 \<or> c = CHR 0x5C then CHR 0x5C # c # escape cs else c # escape cs)"

fun json_value :: "jsvalue \<Rightarrow> string" where
  "json_value Undefined = ''null''"
| "json_value Null = ''null''"
| "json_value (Boolean b) = (if b then ''true'' else ''false'')"
| "json_value (Number i) = (if i < 0 then CHR ''-'' # decimal (nat (- i)) else decimal (nat i))"
| "json_value (Str s) = CHR 0x22 # escape s @ [CHR 0x22]"

fun json_items :: "jsvalue list \<Rightarrow> string" where
  "json_items [] = []"
| "json_items [v] = json_value v"
| "json_items (v # w # vs) = json_value v @ CHR '','' # json_items (w # vs)"

definition JSON_stringify :: "jsvalue list \<Rightarrow> string" where
  "JSON_stringify argsList = CHR ''['' # json_items argsList @ '']''"

text \<open>
  \<open>function addXY(x, y) { return x + y; }\<close> on two integer arguments; other argument
  lists are outside what is modelled and give \<open>undefined\<close> here.
\<close>

fun addXY :: "jsvalue list \<Rightarrow> jsvalue" where
  "addXY [Number x, Number y] = Number (x + y)"
| "addXY _ = Undefined"

text \<open>Running a sequence of \<open>add\<close> calls; an uncaught exception ends the run.\<close>

fun add_all :: "(string \<times> jsvalue) list \<Rightarrow> LRU \<Rightarrow> error + LRU" where
  "add_all [] s = Inr s"
| "add_all ((k, v) # kvs) s =
     (case add k v s of Inl e \<Rightarrow> Inl e | Inr s' \<Rightarrow> add_all kvs s')"

section \<open>Chains in the heap\<close>

text \<open>
  \<open>links f h p as q\<close>: starting from the reference \<open>p\<close> and following the field
  \<open>f\<close>, the nodes visited are exactly \<open>as\<close>, all allocated, and the reference after
  the last of them is \<open>q\<close>.
\<close>

fun links ::
  "(Node \<Rightarrow> addr option) \<Rightarrow> Node list \<Rightarrow> addr option \<Rightarrow> addr list \<Rightarrow> addr option \<Rightarrow> bool"
  where
  "links f h p [] q = (p = q)"
| "links f h p (a # as) q = (p = Some a \<and> a < length h \<and> links f h (f (h ! a)) as q)"

text \<open>
  \<open>well_formed s\<close> is what every state has, whatever keys the store was used with:
  references point into the heap, \<open>next\<close> points to an older node and \<open>prev\<close> to a newer
  one. It says nothing on the index.
\<close>

definition well_formed :: "LRU \<Rightarrow> bool" where
  "well_formed s \<longleftrightarrow>
     (\<forall>a b. a < length (heap s) \<longrightarrow> nxt (heap s ! a) = Some b \<longrightarrow> b < a) \<and>
     (\<forall>a b. a < length (heap s) \<longrightarrow> prev (heap s ! a) = Some b \<longrightarrow> a < b \<and> b < length (heap s)) \<and>
     (\<forall>a. head s = Some a \<longrightarrow> a < length (heap s)) \<and>
     (\<forall>a. tail s = Some a \<longrightarrow> a < length (heap s)) \<and>
     (\<forall>k a. cache s k = Some a \<longrightarrow> a < length (heap s)) \<and>
     (\<forall>a. proto s = Some a \<longrightarrow> a < length (heap s))"

text \<open>A key is \<open>plain\<close> when an empty object inherits no property of that name.\<close>

definition plain :: "string \<Rightarrow> bool" where
  "plain k \<longleftrightarrow> k \<noteq> ''__proto__'' \<and> k \<notin> set Object_prototype_names"

text \<open>
  \<open>chained s ps\<close>: the nodes \<open>ps\<close> form the doubly linked chain of the store, from
  \<open>head\<close> along \<open>next\<close> and from \<open>tail\<close> along \<open>prev\<close>; every own property of the index
  points to a node of the chain that carries the property's name as its key; \<open>size\<close> is the
  chain's length; the keys of the chain are plain and the prototype of the index object is
  still \<open>Object.prototype\<close>.
\<close>

definition chained :: "LRU \<Rightarrow> addr list \<Rightarrow> bool" where
  "chained s ps \<longleftrightarrow>
     distinct ps \<and>
     links nxt (heap s) (head s) ps None \<and>
     links prev (heap s) (tail s) (rev ps) None \<and>
     (\<forall>k a. cache s k = Some a \<longrightarrow> a \<in> set ps \<and> key (heap s ! a) = k) \<and>
     size_lru s = int (length ps) \<and>
     proto s = None \<and>
     (\<forall>a \<in> set ps. plain (key (heap s ! a)))"

text \<open>\<open>indexed s ps\<close>: in addition, every node of the chain is the index entry of its key.\<close>

definition indexed :: "LRU \<Rightarrow> addr list \<Rightarrow> bool" where
  "indexed s ps \<longleftrightarrow> chained s ps \<and> (\<forall>a \<in> set ps. cache s (key (heap s ! a)) = Some a)"

text \<open>The key/value pairs held by the nodes \<open>ps\<close>, in that order.\<close>

definition entries :: "LRU \<Rightarrow> addr list \<Rightarrow> (string \<times> jsvalue) list" where
  "entries s ps = map (\<lambda>a. (key (heap s ! a), val (heap s ! a))) ps"

text \<open>The part of \<open>add\<close> after \<open>enforceLimit\<close>, named for the proofs.\<close>

definition link_head :: "string \<Rightarrow> jsvalue \<Rightarrow> LRU \<Rightarrow> LRU" where
  "link_head k v s1 =
     (let n = length (heap s1);
          s2 = (case head s1 of
                  None \<Rightarrow>
                    s1\<lparr>heap := heap s1 @ [\<lparr>key = k, val = v, nxt = None, prev = None\<rparr>],
                       head := Some n, tail := Some n\<rparr>
                | Some h \<Rightarrow>
                    s1\<lparr>heap := (heap s1 @ [\<lparr>key = k, val = v, nxt = Some h, prev = None\<rparr>])
                                 [h := (heap s1 ! h)\<lparr>prev := Some n\<rparr>],
                       head := Some n\<rparr>);
          s3 = (if k = ''__proto__'' then s2\<lparr>proto := head s2\<rparr>
                else s2\<lparr>cache := (cache s2)(k := head s2)\<rparr>)
      in s3\<lparr>size_lru := size_lru s3 + 1\<rparr>)"

text \<open>
  The heap after \<open>remove\<close> has unlinked the node \<open>a\<close>: the two assignments of
  \<open>remove\<close>, the second on the result of the first.
\<close>

definition unlinked :: "Node list \<Rightarrow> addr \<Rightarrow> Node list" where
  "unlinked h a =
     (let h1 = (case nxt (h ! a) of
                  Some n \<Rightarrow> h[n := (h ! n)\<lparr>prev := prev (h ! a)\<rparr>]
                | None \<Rightarrow> h)
      in (case prev (h ! a) of
            Some p \<Rightarrow> h1[p := (h1 ! p)\<lparr>nxt := nxt (h ! a)\<rparr>]
          | None \<Rightarrow> h1))"

text \<open>
  The states a program can bring a store into, with any keys: a fresh store, and any state
  after a call of \<open>add\<close>, \<open>read\<close> or \<open>remove\<close> that returns. A call of \<open>add\<close> that throws
  does so in \<open>enforceLimit\<close>, before any assignment; a call of \<open>read\<close> that throws does so
  in its \<open>add\<close>, and leaves the state that its \<open>remove\<close> has produced.
\<close>

inductive reachable :: "LRU \<Rightarrow> bool" where
  fresh: "reachable (LRU_constructor lim)"
| after_add: "reachable s \<Longrightarrow> add k v s = Inr s' \<Longrightarrow> reachable s'"
| after_read: "reachable s \<Longrightarrow> read k s = Inr (v, s') \<Longrightarrow> reachable s'"
| after_remove: "reachable s \<Longrightarrow> reachable (remove k s)"

text \<open>The states reached when every key that is passed is plain.\<close>

inductive plainly_reachable :: "LRU \<Rightarrow> bool" where
  plain_fresh: "plainly_reachable (LRU_constructor lim)"
| plain_add: "plainly_reachable s \<Longrightarrow> plain k \<Longrightarrow> add k v s = Inr s' \<Longrightarrow> plainly_reachable s'"
| plain_read: "plainly_reachable s \<Longrightarrow> plain k \<Longrightarrow> read k s = Inr (v, s') \<Longrightarrow> plainly_reachable s'"
| plain_remove: "plainly_reachable s \<Longrightarrow> plain k \<Longrightarrow> plainly_reachable (remove k s)"

section \<open>Example states\<close>

text \<open>
  A store of limit 5 after \<open>add(1, "foo")\<close> and \<open>add(2, "bar")\<close>.
\<close>

definition two_entries :: LRU where
  "two_entries =
     \<lparr>size_lru = 2, limit = 5, head = Some 1, tail = Some 0,
      cache = [''1'' \<mapsto> 0, ''2'' \<mapsto> 1], proto = None,
      heap = [\<lparr>key = ''1'', val = Str ''foo'', nxt = None, prev = Some 1\<rparr>,
              \<lparr>key = ''2'', val = Str ''bar'', nxt = Some 0, prev = None\<rparr>]\<rparr>"


text \<open>
  A store of limit 3 after \<open>add(1, 0)\<close>.
\<close>

definition zero_entry :: LRU where
  "zero_entry =
     \<lparr>size_lru = 1, limit = 3, head = Some 0, tail = Some 0, cache = [''1'' \<mapsto> 0],
      proto = None,
      heap = [\<lparr>key = ''1'', val = Number 0, nxt = None, prev = None\<rparr>]\<rparr>"

section \<open>Lemmas on chains\<close>


lemma add_link_head:
  "add k v s = (case enforceLimit s of Inl e \<Rightarrow> Inl e | Inr s1 \<Rightarrow> Inr (link_head k v s1))"
  by (simp add: add_def link_head_def Let_def split: sum.splits)

lemma links_append:
  "links f h p (as @ bs) q = (\<exists>m. links f h p as m \<and> links f h m bs q)"
  by (induction as arbitrary: p) auto

lemma links_bound: "links f h p as q \<Longrightarrow> a \<in> set as \<Longrightarrow> a < length h"
  by (induction as arbitrary: p) auto

lemma links_cong:
  assumes "links f h p as q"
    and "length h \<le> length h'"
    and "\<And>a. a \<in> set as \<Longrightarrow> f (h' ! a) = f (h ! a)"
  shows "links f h' p as q"
  using assms by (induction as arbitrary: p) auto

text \<open>
  Unlinking the node \<open>a\<close> from a chain along \<open>f\<close>: if the node before \<open>a\<close> (when there
  is one) now carries \<open>a\<close>'s successor, and no other node of the chain has changed its
  field \<open>f\<close>, the chain without \<open>a\<close> starts at the old start, or at \<open>a\<close>'s successor
  when \<open>a\<close> was first.
\<close>

lemma links_unlink:
  assumes ch: "links f h p (as @ a # bs) None"
    and dist: "distinct (as @ a # bs)"
    and len: "length h \<le> length h'"
    and same: "\<And>b. b \<in> set (as @ bs) \<Longrightarrow> (as = [] \<or> b \<noteq> last as) \<Longrightarrow> f (h' ! b) = f (h ! b)"
    and pred: "as \<noteq> [] \<Longrightarrow> f (h' ! last as) = f (h ! a)"
  shows "links f h' (if as = [] then f (h ! a) else p) (as @ bs) None"
proof (cases "as = []")
  case True
  with ch have "links f h (f (h ! a)) bs None" by simp
  then have "links f h' (f (h ! a)) bs None"
    using len same True by (auto intro: links_cong)
  with True show ?thesis by simp
next
  case False
  then obtain cs l where as: "as = cs @ [l]"
    by (metis rev_exhaust)
  from ch as have c1: "links f h p cs (Some l)" and l: "l < length h"
    and c2: "links f h (f (h ! a)) bs None"
    by (auto simp: links_append)
  from dist as have lcs: "l \<notin> set cs" and lbs: "l \<notin> set bs" by auto
  have "links f h' p cs (Some l)"
    using c1 len
  proof (rule links_cong)
    fix b assume "b \<in> set cs"
    with lcs as show "f (h' ! b) = f (h ! b)" by (intro same) auto
  qed
  moreover have "l < length h'" using l len by simp
  moreover have "f (h' ! l) = f (h ! a)" using pred as by simp
  moreover have "links f h' (f (h ! a)) bs None"
    using c2 len
  proof (rule links_cong)
    fix b assume "b \<in> set bs"
    with lbs as show "f (h' ! b) = f (h ! b)" by (intro same) auto
  qed
  ultimately have "links f h' p (cs @ l # bs) None"
    by (auto simp: links_append)
  with as False show ?thesis by simp
qed

subsection \<open>Lookup\<close>

lemma plain_not_proto: "plain k \<Longrightarrow> k \<noteq> ''__proto__''"
  by (simp add: plain_def)

lemma cache_get_own:
  "k \<noteq> ''__proto__'' \<Longrightarrow> cache s k = Some a \<Longrightarrow> cache_get s k = Node_at a"
  by (simp add: cache_get_def)

lemma cache_get_plain_absent:
  "plain k \<Longrightarrow> proto s = None \<Longrightarrow> cache s k = None \<Longrightarrow> cache_get s k = Missing"
  by (simp add: cache_get_def plain_def)

lemma cache_get_node_own:
  "proto s = None \<Longrightarrow> cache_get s k = Node_at a \<Longrightarrow> cache s k = Some a \<and> k \<noteq> ''__proto__''"
  by (auto simp: cache_get_def split: if_splits option.splits)

lemma chained_cache_get:
  assumes "chained s ps" and "cache s k = Some a"
  shows "cache_get s k = Node_at a" and "plain k" and "a \<in> set ps"
proof -
  from assms show "a \<in> set ps" and p: "plain k" by (auto simp: chained_def)
  from p assms(2) show "cache_get s k = Node_at a"
    by (simp add: cache_get_own plain_not_proto)
qed

subsection \<open>\<open>remove\<close> on a chain\<close>

lemma remove_unfold:
  assumes "cache_get s k = Node_at a" and "nxt (heap s ! a) \<noteq> Some a"
  shows "remove k s =
           s\<lparr>heap := unlinked (heap s) a,
             tail := (case nxt (heap s ! a) of None \<Rightarrow> prev (heap s ! a) | Some n \<Rightarrow> tail s),
             head := (case prev (heap s ! a) of None \<Rightarrow> nxt (heap s ! a) | Some p \<Rightarrow> head s),
             cache := (cache s)(k := None),
             size_lru := size_lru s - 1\<rparr>"
  using assms
  by (auto simp: remove_def unlinked_def Let_def split: option.splits)

lemma remove_missing: "cache_get s k = Missing \<Longrightarrow> remove k s = s"
  by (simp add: remove_def)

lemma nth_update_any:
  "h[n := y] ! b = (if b = n \<and> n < length h then y else h ! b)"
  by (cases "n < length h") (auto simp: nth_list_update list_update_beyond)

lemma length_unlinked: "length (unlinked h a) = length h"
  by (simp add: unlinked_def Let_def split: option.splits)

lemma key_unlinked: "key (unlinked h a ! b) = key (h ! b)"
  by (simp add: unlinked_def Let_def nth_update_any split: option.splits)

lemma val_unlinked: "val (unlinked h a ! b) = val (h ! b)"
  by (simp add: unlinked_def Let_def nth_update_any split: option.splits)

lemma nxt_unlinked:
  "nxt (unlinked h a ! b) =
     (if prev (h ! a) = Some b \<and> b < length h then nxt (h ! a) else nxt (h ! b))"
  by (auto simp: unlinked_def Let_def nth_update_any split: option.splits)

lemma prev_unlinked:
  "prev (unlinked h a ! b) =
     (if nxt (h ! a) = Some b \<and> b < length h then prev (h ! a) else prev (h ! b))"
  by (auto simp: unlinked_def Let_def nth_update_any split: option.splits)

lemma chained_split:
  assumes "chained s (as @ a # bs)"
  shows "nxt (heap s ! a) = (if bs = [] then None else Some (hd bs))"
    and "prev (heap s ! a) = (if as = [] then None else Some (last as))"
    and "head s = Some (hd (as @ [a]))"
    and "tail s = Some (last (a # bs))"
    and "\<And>b. b \<in> set (as @ a # bs) \<Longrightarrow> b < length (heap s)"
proof -
  let ?h = "heap s"
  from assms have f: "links nxt ?h (head s) (as @ a # bs) None"
    and b: "links prev ?h (tail s) (rev bs @ a # rev as) None"
    by (simp_all add: chained_def)
  from f have "links nxt ?h (nxt (?h ! a)) bs None"
    by (auto simp: links_append)
  then show "nxt (?h ! a) = (if bs = [] then None else Some (hd bs))"
    by (cases bs) auto
  from b have "links prev ?h (prev (?h ! a)) (rev as) None"
    by (auto simp: links_append)
  then show "prev (?h ! a) = (if as = [] then None else Some (last as))"
    by (cases as rule: rev_cases) auto
  from f show "head s = Some (hd (as @ [a]))"
    by (cases as) auto
  from b show "tail s = Some (last (a # bs))"
    by (cases bs rule: rev_cases) auto
  fix b assume "b \<in> set (as @ a # bs)"
  with f show "b < length ?h" by (rule links_bound)
qed

lemma remove_chained:
  assumes ch: "chained s (as @ a # bs)" and c: "cache s k = Some a"
  shows "chained (remove k s) (as @ bs)"
    and "remove k s =
           s\<lparr>heap := unlinked (heap s) a,
             tail := (case nxt (heap s ! a) of None \<Rightarrow> prev (heap s ! a) | Some n \<Rightarrow> tail s),
             head := (case prev (heap s ! a) of None \<Rightarrow> nxt (heap s ! a) | Some p \<Rightarrow> head s),
             cache := (cache s)(k := None),
             size_lru := size_lru s - 1\<rparr>"
proof -
  let ?h = "heap s" and ?h' = "unlinked (heap s) a"
  note sp = chained_split [OF ch]
  from ch have dist: "distinct (as @ a # bs)"
    and f: "links nxt ?h (head s) (as @ a # bs) None"
    and b: "links prev ?h (tail s) (rev bs @ a # rev as) None"
    and idx: "\<And>k' c. cache s k' = Some c \<Longrightarrow> c \<in> set (as @ a # bs) \<and> key (?h ! c) = k'"
    and sz: "size_lru s = int (length (as @ a # bs))"
    and pr: "proto s = None"
    and pl: "\<And>c. c \<in> set (as @ a # bs) \<Longrightarrow> plain (key (?h ! c))"
    by (auto simp: chained_def)
  from dist sp(1) have "nxt (?h ! a) \<noteq> Some a"
    by (cases bs) auto
  with chained_cache_get(1) [OF ch c] show eq: "remove k s =
           s\<lparr>heap := ?h',
             tail := (case nxt (?h ! a) of None \<Rightarrow> prev (?h ! a) | Some n \<Rightarrow> tail s),
             head := (case prev (?h ! a) of None \<Rightarrow> nxt (?h ! a) | Some p \<Rightarrow> head s),
             cache := (cache s)(k := None),
             size_lru := size_lru s - 1\<rparr>"
    by (rule remove_unfold)
  have f': "links nxt ?h' (if as = [] then nxt (?h ! a) else head s) (as @ bs) None"
    using f dist
  proof (rule links_unlink)
    show "length ?h \<le> length ?h'" by (simp add: length_unlinked)
  next
    fix b assume "b \<in> set (as @ bs)" "as = [] \<or> b \<noteq> last as"
    then show "nxt (?h' ! b) = nxt (?h ! b)"
      by (auto simp: nxt_unlinked sp(2))
  next
    assume "as \<noteq> []"
    then show "nxt (?h' ! last as) = nxt (?h ! a)"
      using sp(5) [of "last as"] by (simp add: nxt_unlinked sp(2))
  qed
  have dist': "distinct (rev bs @ a # rev as)" using dist by auto
  have b': "links prev ?h' (if rev bs = [] then prev (?h ! a) else tail s) (rev bs @ rev as) None"
    using b dist'
  proof (rule links_unlink)
    show "length ?h \<le> length ?h'" by (simp add: length_unlinked)
  next
    fix b assume "b \<in> set (rev bs @ rev as)" "rev bs = [] \<or> b \<noteq> last (rev bs)"
    then show "prev (?h' ! b) = prev (?h ! b)"
      by (auto simp: prev_unlinked sp(1) last_rev)
  next
    assume "rev bs \<noteq> []"
    then show "prev (?h' ! last (rev bs)) = prev (?h ! a)"
      using sp(5) [of "hd bs"] by (simp add: prev_unlinked sp(1) last_rev)
  qed
  have idx': "\<And>k' c. ((cache s)(k := None)) k' = Some c \<Longrightarrow> c \<in> set (as @ bs) \<and> key (?h' ! c) = k'"
  proof -
    fix k' c assume a: "((cache s)(k := None)) k' = Some c"
    then have kk: "k' \<noteq> k" and cc: "cache s k' = Some c" by (auto split: if_splits)
    from idx [OF cc] have "c \<in> set (as @ a # bs)" "key (?h ! c) = k'" by auto
    moreover from idx [OF c] have "key (?h ! a) = k" by simp
    ultimately show "c \<in> set (as @ bs) \<and> key (?h' ! c) = k'"
      using kk by (auto simp: key_unlinked)
  qed
  have pl': "\<And>c. c \<in> set (as @ bs) \<Longrightarrow> plain (key (?h' ! c))"
    using pl by (auto simp: key_unlinked)
  show "chained (remove k s) (as @ bs)"
    unfolding chained_def eq
    using dist f' b' idx' sz sp(1,2) pr pl'
    by (auto simp: split: option.splits if_splits)
qed

subsection \<open>\<open>add\<close>, \<open>read\<close> and \<open>contentsArray\<close> on a chain\<close>

lemma link_head_heap:
  "heap (link_head k v s) =
     (case head s of
        None \<Rightarrow> heap s @ [\<lparr>key = k, val = v, nxt = None, prev = None\<rparr>]
      | Some h \<Rightarrow> (heap s @ [\<lparr>key = k, val = v, nxt = Some h, prev = None\<rparr>])
                    [h := (heap s ! h)\<lparr>prev := Some (length (heap s))\<rparr>])"
  and link_head_head: "head (link_head k v s) = Some (length (heap s))"
  and link_head_tail:
    "tail (link_head k v s) = (case head s of None \<Rightarrow> Some (length (heap s)) | Some h \<Rightarrow> tail s)"
  and link_head_cache:
    "cache (link_head k v s) =
       (if k = ''__proto__'' then cache s else (cache s)(k \<mapsto> length (heap s)))"
  and link_head_proto:
    "proto (link_head k v s) = (if k = ''__proto__'' then Some (length (heap s)) else proto s)"
  and link_head_size: "size_lru (link_head k v s) = size_lru s + 1"
  and link_head_limit: "limit (link_head k v s) = limit s"
  by (simp_all add: link_head_def Let_def split: option.splits)

lemma length_link_head: "length (heap (link_head k v s)) = Suc (length (heap s))"
  by (simp add: link_head_heap split: option.splits)

lemma link_head_new:
  assumes "head s = None \<or> (\<exists>h. head s = Some h \<and> h < length (heap s))"
  shows "heap (link_head k v s) ! length (heap s) = \<lparr>key = k, val = v, nxt = head s, prev = None\<rparr>"
  using assms by (auto simp: link_head_heap nth_update_any nth_append)

lemma link_head_old:
  assumes "b < length (heap s)"
  shows "key (heap (link_head k v s) ! b) = key (heap s ! b)"
    and "val (heap (link_head k v s) ! b) = val (heap s ! b)"
    and "nxt (heap (link_head k v s) ! b) = nxt (heap s ! b)"
    and "prev (heap (link_head k v s) ! b) =
           (if head s = Some b then Some (length (heap s)) else prev (heap s ! b))"
  using assms
  by (auto simp: link_head_heap nth_update_any nth_append split: option.splits)

lemma cache_get_link_head: "cache_get (link_head k v s) k = Node_at (length (heap s))"
  by (simp add: cache_get_def link_head_cache link_head_proto)

lemma link_head_chained:
  assumes ch: "chained s ps" and pk: "plain k"
  shows "chained (link_head k v s) (length (heap s) # ps)"
proof -
  let ?h = "heap s" and ?s' = "link_head k v s"
  let ?h' = "heap ?s'" and ?n = "length (heap s)"
  from ch have dist: "distinct ps"
    and f: "links nxt ?h (head s) ps None"
    and b: "links prev ?h (tail s) (rev ps) None"
    and idx: "\<And>k' c. cache s k' = Some c \<Longrightarrow> c \<in> set ps \<and> key (?h ! c) = k'"
    and sz: "size_lru s = int (length ps)"
    and pr: "proto s = None"
    and pl: "\<And>c. c \<in> set ps \<Longrightarrow> plain (key (?h ! c))"
    by (auto simp: chained_def)
  have np: "k \<noteq> ''__proto__''" using pk by (rule plain_not_proto)
  have bound: "\<And>b. b \<in> set ps \<Longrightarrow> b < ?n"
    using f by (rule links_bound)
  then have fresh: "?n \<notin> set ps" by auto
  have len: "length ?h' = Suc ?n" by (rule length_link_head)
  have hd: "head s = None \<or> (\<exists>h. head s = Some h \<and> h < ?n)"
    using f by (cases ps) auto
  note new = link_head_new [OF hd, of k v]
  have f': "links nxt ?h' (head s) ps None"
    using f
  proof (rule links_cong)
    show "?n \<le> length ?h'" by (simp add: len)
  next
    fix b assume "b \<in> set ps"
    then show "nxt (?h' ! b) = nxt (?h ! b)"
      by (simp add: link_head_old bound)
  qed
  have b': "links prev ?h' (tail ?s') (rev ps @ [?n]) None"
  proof (cases ps)
    case Nil
    with f have "head s = None" by simp
    with Nil show ?thesis
      by (simp add: link_head_tail new len)
  next
    case (Cons p qs)
    with f have hs: "head s = Some p" by simp
    from b Cons have b1: "links prev ?h (tail s) (rev qs) (Some p)" and p: "p < ?n"
      by (auto simp: links_append)
    from dist Cons have pq: "p \<notin> set qs" by simp
    have "links prev ?h' (tail s) (rev qs) (Some p)"
      using b1
    proof (rule links_cong)
      show "?n \<le> length ?h'" by (simp add: len)
    next
      fix b assume "b \<in> set (rev qs)"
      with pq hs Cons show "prev (?h' ! b) = prev (?h ! b)"
        using bound [of b] by (auto simp: link_head_old)
    qed
    moreover have "prev (?h' ! p) = Some ?n"
      using p hs by (simp add: link_head_old)
    ultimately show ?thesis
      using hs Cons p by (auto simp: links_append link_head_tail new len)
  qed
  have idx': "\<And>k' c. ((cache s)(k \<mapsto> ?n)) k' = Some c \<Longrightarrow>
      c \<in> set (?n # ps) \<and> key (?h' ! c) = k'"
    using idx bound by (auto simp: new link_head_old split: if_splits)
  have pl': "\<And>c. c \<in> set (?n # ps) \<Longrightarrow> plain (key (?h' ! c))"
    using pl pk bound by (auto simp: new link_head_old)
  show ?thesis
    unfolding chained_def
    using dist fresh f' b' idx' sz pr pl' np
    by (simp add: link_head_head link_head_cache link_head_proto link_head_size new len)
qed

lemma contentsLoop_links:
  "links nxt h p ps None \<Longrightarrow>
     contentsLoop h p acc = Some (acc @ map (\<lambda>a. val (h ! a)) ps)"
proof (induction ps arbitrary: p acc)
  case Nil
  then show ?case by (subst contentsLoop.simps) simp
next
  case (Cons a ps)
  then show ?case by (subst contentsLoop.simps) simp
qed

lemma contentsArray_chained:
  assumes "chained s ps" and "ps \<noteq> []"
  shows "contentsArray s = Some (Inr (map snd (entries s ps)))"
proof -
  from assms obtain a qs where ps: "ps = a # qs" by (cases ps) auto
  with assms have "head s = Some a" and "links nxt (heap s) (nxt (heap s ! a)) qs None"
    by (simp_all add: chained_def)
  then show ?thesis
    by (simp add: contentsArray_def contentsLoop_links ps entries_def comp_def)
qed

lemma chained_bound: "chained s ps \<Longrightarrow> a \<in> set ps \<Longrightarrow> a < length (heap s)"
  by (auto simp: chained_def intro: links_bound)

lemma head_chained: "chained s (n # ps) \<Longrightarrow> head s = Some n"
  by (simp add: chained_def)

text \<open>
  \<open>enforceLimit\<close> on a chain: it returns unless the limit is 0; what it leaves is a chain
  again, of nodes of the old one, and the old one itself when \<open>size\<close> differs from
  \<open>limit\<close>; no node changes its key or value.
\<close>

lemma enforceLimit_chained:
  assumes ch: "chained s ps" and lim: "limit s \<noteq> 0"
  shows "\<exists>s' ps'. enforceLimit s = Inr s' \<and> chained s' ps' \<and> limit s' = limit s \<and>
           set ps' \<subseteq> set ps \<and> (limit s \<noteq> size_lru s \<longrightarrow> ps' = ps) \<and>
           length (heap s') = length (heap s) \<and>
           (\<forall>b. key (heap s' ! b) = key (heap s ! b) \<and> val (heap s' ! b) = val (heap s ! b))"
proof (cases "limit s = size_lru s")
  case False
  with ch show ?thesis by (auto simp: enforceLimit_def)
next
  case True
  with ch lim have "ps \<noteq> []" by (auto simp: chained_def)
  then obtain qs t where ps: "ps = qs @ [t]" by (metis rev_exhaust)
  with ch have t: "tail s = Some t" by (simp add: chained_def)
  let ?k = "key (heap s ! t)"
  have e: "enforceLimit s = Inr (remove ?k s)"
    using True t by (simp add: enforceLimit_def)
  from ch ps have pk: "plain ?k" and pr: "proto s = None" by (auto simp: chained_def)
  show ?thesis
  proof (cases "cache s ?k")
    case None
    then have "remove ?k s = s"
      using pk pr by (simp add: remove_missing cache_get_plain_absent)
    with e ch True show ?thesis by auto
  next
    case (Some a)
    with ch have "a \<in> set ps" by (simp add: chained_def)
    then obtain as bs where sp: "ps = as @ a # bs" by (auto dest: split_list)
    note r = remove_chained [OF ch [unfolded sp] Some]
    have "chained (remove ?k s) (as @ bs)" by (rule r(1))
    moreover have "limit (remove ?k s) = limit s"
      and "length (heap (remove ?k s)) = length (heap s)"
      and "\<And>b. key (heap (remove ?k s) ! b) = key (heap s ! b)"
      and "\<And>b. val (heap (remove ?k s) ! b) = val (heap s ! b)"
      by (simp_all add: r(2) length_unlinked key_unlinked val_unlinked)
    ultimately show ?thesis
      using e True sp by auto
  qed
qed

lemma add_chained:
  assumes ch: "chained s ps" and lim: "limit s \<noteq> 0" and pk: "plain k"
  shows "\<exists>s' n ps'. add k v s = Inr s' \<and> chained s' (n # ps') \<and> limit s' = limit s \<and>
           cache s' k = Some n \<and> key (heap s' ! n) = k \<and> val (heap s' ! n) = v \<and>
           n = length (heap s) \<and> set ps' \<subseteq> set ps \<and> (limit s \<noteq> size_lru s \<longrightarrow> ps' = ps) \<and>
           (\<forall>b \<in> set ps'. key (heap s' ! b) = key (heap s ! b) \<and>
                          val (heap s' ! b) = val (heap s ! b))"
proof -
  from enforceLimit_chained [OF ch lim] obtain s1 ps1
    where e: "enforceLimit s = Inr s1" and c1: "chained s1 ps1" and l1: "limit s1 = limit s"
      and sub: "set ps1 \<subseteq> set ps" and same: "limit s \<noteq> size_lru s \<longrightarrow> ps1 = ps"
      and len: "length (heap s1) = length (heap s)"
      and kv: "\<And>b. key (heap s1 ! b) = key (heap s ! b) \<and> val (heap s1 ! b) = val (heap s ! b)"
    by blast
  let ?n = "length (heap s1)"
  have hd: "head s1 = None \<or> (\<exists>h. head s1 = Some h \<and> h < ?n)"
    using c1 by (cases ps1) (auto simp: chained_def)
  have a: "add k v s = Inr (link_head k v s1)"
    using e by (simp add: add_link_head)
  have c2: "chained (link_head k v s1) (?n # ps1)"
    using c1 pk by (rule link_head_chained)
  have old: "\<forall>b \<in> set ps1. key (heap (link_head k v s1) ! b) = key (heap s ! b) \<and>
                          val (heap (link_head k v s1) ! b) = val (heap s ! b)"
    using chained_bound [OF c1] kv by (simp add: link_head_old)
  show ?thesis
    using a c2 l1 sub same len old link_head_new [OF hd, of k v] plain_not_proto [OF pk]
    by (auto simp: link_head_limit link_head_cache)
qed

lemma read_falsy_found: "\<not> truthy_found (cache_get s k) \<Longrightarrow> read k s = Inr (Null, s)"
  by (simp add: read_def)

lemma read_absent:
  "chained s ps \<Longrightarrow> plain k \<Longrightarrow> cache s k = None \<Longrightarrow> read k s = Inr (Null, s)"
  by (simp add: read_falsy_found cache_get_plain_absent chained_def)

text \<open>
  \<open>read\<close> of a key that is present, on a chain: it returns the value; the node that held
  the key has left the chain and a new node with the key and the value is its first node.
\<close>

lemma read_chained:
  assumes ch: "chained s ps" and lim: "limit s \<noteq> 0" and c: "cache s k = Some a"
  shows "\<exists>s' n ps'. read k s = Inr (val (heap s ! a), s') \<and> chained s' (n # ps') \<and>
           limit s' = limit s \<and> cache s' k = Some n \<and> key (heap s' ! n) = k \<and>
           val (heap s' ! n) = val (heap s ! a) \<and>
           a \<notin> set ps' \<and> set ps' \<subseteq> set ps \<and>
           (limit s \<noteq> size_lru s - 1 \<longrightarrow> ps' = remove1 a ps) \<and>
           (\<forall>b \<in> set ps'. key (heap s' ! b) = key (heap s ! b) \<and>
                          val (heap s' ! b) = val (heap s ! b))"
proof -
  note g = chained_cache_get [OF ch c]
  from g(3) obtain as bs where sp: "ps = as @ a # bs" by (auto dest: split_list)
  from ch sp have d: "distinct (as @ a # bs)" by (simp add: chained_def)
  then have rm: "remove1 a ps = as @ bs" and notin: "a \<notin> set (as @ bs)"
    by (auto simp: sp remove1_append)
  note r = remove_chained [OF ch [unfolded sp] c]
  have l1: "limit (remove k s) \<noteq> 0" and l1': "limit (remove k s) = limit s"
    and sz: "size_lru (remove k s) = size_lru s - 1"
    and kv: "\<And>b. key (heap (remove k s) ! b) = key (heap s ! b)"
      "\<And>b. val (heap (remove k s) ! b) = val (heap s ! b)"
    using lim by (simp_all add: r(2) key_unlinked val_unlinked)
  from add_chained [OF r(1) l1 g(2), of "val (heap s ! a)"] obtain s' n ps'
    where a: "add k (val (heap s ! a)) (remove k s) = Inr s'" and c': "chained s' (n # ps')"
      and l': "limit s' = limit (remove k s)" and ck: "cache s' k = Some n"
      and kn: "key (heap s' ! n) = k" and vn: "val (heap s' ! n) = val (heap s ! a)"
      and sub: "set ps' \<subseteq> set (as @ bs)"
      and same: "limit (remove k s) \<noteq> size_lru (remove k s) \<longrightarrow> ps' = as @ bs"
      and old: "\<forall>b \<in> set ps'. key (heap s' ! b) = key (heap (remove k s) ! b) \<and>
                          val (heap s' ! b) = val (heap (remove k s) ! b)"
    by blast
  have rd: "read k s = Inr (val (heap s ! a), s')"
    using a g(1) by (simp add: read_def)
  have "a \<notin> set ps'" and "set ps' \<subseteq> set ps"
    using sub notin sp by auto
  moreover have "limit s \<noteq> size_lru s - 1 \<longrightarrow> ps' = remove1 a ps"
    using same l1' sz rm by simp
  moreover have "\<forall>b \<in> set ps'. key (heap s' ! b) = key (heap s ! b) \<and>
                          val (heap s' ! b) = val (heap s ! b)"
    using old kv by simp
  moreover have "limit s' = limit s" using l' l1' by simp
  ultimately show ?thesis
    using rd c' ck kn vn
    by (intro exI [of _ s'] exI [of _ n] exI [of _ ps'] conjI)
qed

subsection \<open>Stores in which no key was added twice\<close>


lemma indexed_distinct_keys:
  assumes "indexed s ps"
  shows "distinct (map fst (entries s ps))"
proof -
  from assms have d: "distinct ps"
    and i: "\<And>a. a \<in> set ps \<Longrightarrow> cache s (key (heap s ! a)) = Some a"
    by (simp_all add: indexed_def chained_def)
  have "inj_on (\<lambda>a. key (heap s ! a)) (set ps)"
  proof (rule inj_onI)
    fix a b assume "a \<in> set ps" "b \<in> set ps" "key (heap s ! a) = key (heap s ! b)"
    then show "a = b" using i [of a] i [of b] by (metis option.inject)
  qed
  moreover have "map fst (entries s ps) = map (\<lambda>a. key (heap s ! a)) ps"
    by (simp add: entries_def)
  ultimately show ?thesis
    using d by (simp only: distinct_map)
qed


lemma indexed_size:
  assumes "indexed s ps"
  shows "size_lru s = int (length (entries s ps))"
  using assms by (simp add: indexed_def chained_def entries_def)

lemma indexed_card:
  assumes "indexed s ps"
  shows "int (card (dom (cache s))) = size_lru s"
proof -
  from assms have d: "distinct ps" and sz: "size_lru s = int (length ps)"
    and i: "\<And>a. a \<in> set ps \<Longrightarrow> cache s (key (heap s ! a)) = Some a"
    and j: "\<And>k a. cache s k = Some a \<Longrightarrow> a \<in> set ps \<and> key (heap s ! a) = k"
    by (auto simp: indexed_def chained_def)
  have "dom (cache s) = (\<lambda>a. key (heap s ! a)) ` set ps"
  proof (rule set_eqI)
    fix k show "(k \<in> dom (cache s)) = (k \<in> (\<lambda>a. key (heap s ! a)) ` set ps)"
      using i j by (force simp: dom_def)
  qed
  moreover have "inj_on (\<lambda>a. key (heap s ! a)) (set ps)"
  proof (rule inj_onI)
    fix a b assume "a \<in> set ps" "b \<in> set ps" "key (heap s ! a) = key (heap s ! b)"
    then show "a = b" using i [of a] i [of b] by (metis option.inject)
  qed
  ultimately have "card (dom (cache s)) = card (set ps)"
    by (simp add: card_image)
  with d sz show ?thesis by (simp add: distinct_card)
qed

lemma remove_indexed:
  assumes ix: "indexed s (as @ a # bs)" and c: "cache s k = Some a"
  shows "indexed (remove k s) (as @ bs)"
    and "entries (remove k s) (as @ bs) = entries s as @ entries s bs"
    and "cache (remove k s) = (cache s)(k := None)"
    and "limit (remove k s) = limit s"
proof -
  from ix have ch: "chained s (as @ a # bs)"
    and i: "\<And>c. c \<in> set (as @ a # bs) \<Longrightarrow> cache s (key (heap s ! c)) = Some c"
    by (auto simp: indexed_def)
  note r = remove_chained [OF ch c]
  from ch have d: "distinct (as @ a # bs)" by (simp add: chained_def)
  show e: "entries (remove k s) (as @ bs) = entries s as @ entries s bs"
    by (simp add: r(2) entries_def key_unlinked val_unlinked)
  show "cache (remove k s) = (cache s)(k := None)" and "limit (remove k s) = limit s"
    by (simp_all add: r(2))
  have "\<And>c. c \<in> set (as @ bs) \<Longrightarrow> cache (remove k s) (key (heap (remove k s) ! c)) = Some c"
  proof -
    fix c assume m: "c \<in> set (as @ bs)"
    then have "cache s (key (heap s ! c)) = Some c" by (intro i) auto
    moreover from m d have "c \<noteq> a" by auto
    ultimately have "key (heap s ! c) \<noteq> k" using c by auto
    then show "cache (remove k s) (key (heap (remove k s) ! c)) = Some c"
      using \<open>cache s (key (heap s ! c)) = Some c\<close> by (simp add: r(2) key_unlinked)
  qed
  with r(1) show "indexed (remove k s) (as @ bs)"
    by (simp add: indexed_def)
qed

lemma link_head_indexed:
  assumes ix: "indexed s ps" and c: "cache s k = None" and pk: "plain k"
  shows "indexed (link_head k v s) (length (heap s) # ps)"
    and "entries (link_head k v s) (length (heap s) # ps) = (k, v) # entries s ps"
proof -
  let ?n = "length (heap s)" and ?s' = "link_head k v s"
  from ix have ch: "chained s ps"
    and i: "\<And>c. c \<in> set ps \<Longrightarrow> cache s (key (heap s ! c)) = Some c"
    by (simp_all add: indexed_def)
  have np: "k \<noteq> ''__proto__''" using pk by (rule plain_not_proto)
  have bound: "\<And>b. b \<in> set ps \<Longrightarrow> b < ?n"
    using ch by (rule chained_bound)
  have hd: "head s = None \<or> (\<exists>h. head s = Some h \<and> h < ?n)"
    using ch by (cases ps) (auto simp: chained_def)
  note new = link_head_new [OF hd, of k v]
  show "entries ?s' (?n # ps) = (k, v) # entries s ps"
    using bound by (simp add: entries_def new link_head_old)
  have "\<And>c. c \<in> set (?n # ps) \<Longrightarrow> cache ?s' (key (heap ?s' ! c)) = Some c"
  proof -
    fix c assume "c \<in> set (?n # ps)"
    then consider "c = ?n" | "c \<in> set ps" by auto
    then show "cache ?s' (key (heap ?s' ! c)) = Some c"
    proof cases
      case 1
      then show ?thesis using np by (simp add: new link_head_cache)
    next
      case 2
      with i [OF 2] c bound [OF 2] np show ?thesis
        by (auto simp: link_head_cache link_head_old)
    qed
  qed
  with link_head_chained [OF ch pk, of v] show "indexed ?s' (?n # ps)"
    by (simp add: indexed_def)
qed

lemma enforceLimit_indexed:
  assumes ix: "indexed s ps" and lim: "limit s \<noteq> 0"
  shows "\<exists>s' ps'. enforceLimit s = Inr s' \<and> indexed s' ps' \<and> limit s' = limit s \<and>
           entries s' ps' = (if limit s = size_lru s then butlast (entries s ps) else entries s ps) \<and>
           (\<forall>k. cache s k = None \<longrightarrow> cache s' k = None)"
proof (cases "limit s = size_lru s")
  case False
  with ix show ?thesis by (auto simp: enforceLimit_def)
next
  case True
  from ix have ch: "chained s ps" by (simp add: indexed_def)
  with True lim have "ps \<noteq> []" by (auto simp: chained_def)
  then obtain qs t where ps: "ps = qs @ t # []" by (metis rev_exhaust)
  with ch have t: "tail s = Some t" by (simp add: chained_def)
  let ?k = "key (heap s ! t)"
  have e: "enforceLimit s = Inr (remove ?k s)"
    using True t by (simp add: enforceLimit_def)
  from ix ps have c: "cache s ?k = Some t" by (simp add: indexed_def)
  from remove_indexed [OF ix [unfolded ps] c] e True ps
  show ?thesis
    by (auto simp: entries_def)
qed

lemma add_indexed:
  assumes ix: "indexed s ps" and lim: "limit s \<noteq> 0" and c: "cache s k = None"
    and pk: "plain k"
  shows "\<exists>s' ps'. add k v s = Inr s' \<and> indexed s' ps' \<and> limit s' = limit s \<and>
           entries s' ps' =
             (k, v) # (if limit s = size_lru s then butlast (entries s ps) else entries s ps)"
proof -
  from enforceLimit_indexed [OF ix lim] obtain s1 ps1
    where e: "enforceLimit s = Inr s1" and i1: "indexed s1 ps1" and l1: "limit s1 = limit s"
      and en: "entries s1 ps1 = (if limit s = size_lru s then butlast (entries s ps) else entries s ps)"
      and c1: "\<forall>k. cache s k = None \<longrightarrow> cache s1 k = None"
    by blast
  from c c1 have "cache s1 k = None" by simp
  from link_head_indexed [OF i1 this pk, of v] e l1 en show ?thesis
    by (auto simp: add_link_head link_head_limit)
qed

lemma add_fresh_within_limit:
  assumes ix: "indexed s ps" and pos: "0 < limit s" and le: "size_lru s \<le> limit s"
    and c: "cache s k = None" and pk: "plain k"
  shows "\<exists>s' ps'. add k v s = Inr s' \<and> indexed s' ps' \<and> limit s' = limit s \<and>
           size_lru s' \<le> limit s' \<and>
           entries s' ps' =
             (k, v) # (if limit s = size_lru s then butlast (entries s ps) else entries s ps)"
proof -
  have lim: "limit s \<noteq> 0" using pos by simp
  from add_indexed [OF ix lim c pk, of v] obtain s' ps'
    where a: "add k v s = Inr s'" and i: "indexed s' ps'" and l: "limit s' = limit s"
      and e: "entries s' ps' =
        (k, v) # (if limit s = size_lru s then butlast (entries s ps) else entries s ps)"
    by blast
  have "size_lru s' = int (length (entries s' ps'))" using i by (rule indexed_size)
  also have "\<dots> \<le> limit s"
    using e le pos indexed_size [OF ix] by (auto split: if_splits)
  finally have "size_lru s' \<le> limit s'" using l by simp
  with a i l e show ?thesis by blast
qed

lemma read_indexed:
  assumes ix: "indexed s ps" and lim: "limit s \<noteq> 0" and pk: "plain k"
  shows "\<exists>v s' ps'. read k s = Inr (v, s') \<and> indexed s' ps' \<and> limit s' = limit s"
proof (cases "cache s k")
  case None
  from ix have ch: "chained s ps" by (simp add: indexed_def)
  from read_absent [OF ch pk None] ix show ?thesis by auto
next
  case (Some a)
  from ix have ch: "chained s ps" by (simp add: indexed_def)
  note g = chained_cache_get [OF ch Some]
  from g(3) obtain as bs where sp: "ps = as @ a # bs" by (auto dest: split_list)
  note r = remove_indexed [OF ix [unfolded sp] Some]
  have "limit (remove k s) \<noteq> 0" and "cache (remove k s) k = None"
    using lim by (simp_all add: r)
  from add_indexed [OF r(1) this pk, of "val (heap s ! a)"] g(1) show ?thesis
    by (auto simp: read_def r(4))
qed

lemma indexed_constructor: "indexed (LRU_constructor lim) []"
  by (simp add: indexed_def chained_def LRU_constructor_def)






subsection \<open>What holds in every state\<close>

lemma well_formedD:
  assumes "well_formed s"
  shows "\<And>a b. a < length (heap s) \<Longrightarrow> nxt (heap s ! a) = Some b \<Longrightarrow> b < a"
    and "\<And>a b. a < length (heap s) \<Longrightarrow> prev (heap s ! a) = Some b \<Longrightarrow> a < b \<and> b < length (heap s)"
    and "\<And>a. head s = Some a \<Longrightarrow> a < length (heap s)"
    and "\<And>a. tail s = Some a \<Longrightarrow> a < length (heap s)"
    and "\<And>k a. cache s k = Some a \<Longrightarrow> a < length (heap s)"
    and "\<And>a. proto s = Some a \<Longrightarrow> a < length (heap s)"
  using assms unfolding well_formed_def by blast+

lemma well_formedI:
  assumes "\<And>a b. a < length (heap s) \<Longrightarrow> nxt (heap s ! a) = Some b \<Longrightarrow> b < a"
    and "\<And>a b. a < length (heap s) \<Longrightarrow> prev (heap s ! a) = Some b \<Longrightarrow> a < b \<and> b < length (heap s)"
    and "\<And>a. head s = Some a \<Longrightarrow> a < length (heap s)"
    and "\<And>a. tail s = Some a \<Longrightarrow> a < length (heap s)"
    and "\<And>k a. cache s k = Some a \<Longrightarrow> a < length (heap s)"
    and "\<And>a. proto s = Some a \<Longrightarrow> a < length (heap s)"
  shows "well_formed s"
  using assms unfolding well_formed_def by blast

lemma well_formed_shrink:
  assumes wf: "well_formed s" and h: "heap s' = heap s"
    and hd: "head s' = None \<or> head s' = head s" and tl: "tail s' = None \<or> tail s' = tail s"
    and c: "\<And>k. cache s' k = None \<or> cache s' k = cache s k" and p: "proto s' = proto s"
  shows "well_formed s'"
proof (rule well_formedI)
  fix a b assume "a < length (heap s')" "nxt (heap s' ! a) = Some b"
  then have "a < length (heap s)" "nxt (heap s ! a) = Some b" by (simp_all add: h)
  then show "b < a" by (rule well_formedD(1) [OF wf])
next
  fix a b assume "a < length (heap s')" "prev (heap s' ! a) = Some b"
  then have "a < length (heap s)" "prev (heap s ! a) = Some b" by (simp_all add: h)
  then have "a < b \<and> b < length (heap s)" by (rule well_formedD(2) [OF wf])
  then show "a < b \<and> b < length (heap s')" by (simp add: h)
next
  fix a assume "head s' = Some a"
  with hd have "head s = Some a" by auto
  then have "a < length (heap s)" by (rule well_formedD(3) [OF wf])
  then show "a < length (heap s')" by (simp add: h)
next
  fix a assume "tail s' = Some a"
  with tl have "tail s = Some a" by auto
  then have "a < length (heap s)" by (rule well_formedD(4) [OF wf])
  then show "a < length (heap s')" by (simp add: h)
next
  fix k a assume "cache s' k = Some a"
  with c [of k] have "cache s k = Some a" by auto
  then have "a < length (heap s)" by (rule well_formedD(5) [OF wf])
  then show "a < length (heap s')" by (simp add: h)
next
  fix a assume "proto s' = Some a"
  with p have "proto s = Some a" by auto
  then have "a < length (heap s)" by (rule well_formedD(6) [OF wf])
  then show "a < length (heap s')" by (simp add: h)
qed

lemma cache_get_cases:
  assumes "cache_get s k = Node_at a"
  shows "proto s = Some a \<or> cache s k = Some a \<or>
      (\<exists>m. proto s = Some m \<and> (nxt (heap s ! m) = Some a \<or> prev (heap s ! m) = Some a))"
proof (cases "k = ''__proto__''")
  case True
  with assms show ?thesis by (simp add: cache_get_def split: option.splits)
next
  case False
  show ?thesis
  proof (cases "cache s k")
    case (Some b)
    with False assms show ?thesis by (simp add: cache_get_def)
  next
    case None
    show ?thesis
    proof (cases "proto s")
      case None
      with False \<open>cache s k = None\<close> assms show ?thesis
        by (simp add: cache_get_def split: if_splits)
    next
      case (Some m)
      with False \<open>cache s k = None\<close> assms show ?thesis
        by (simp add: cache_get_def split: if_splits option.splits)
    qed
  qed
qed

lemma cache_get_bound:
  assumes wf: "well_formed s" and g: "cache_get s k = Node_at a"
  shows "a < length (heap s)"
proof -
  from cache_get_cases [OF g] consider "proto s = Some a" | "cache s k = Some a"
    | m where "proto s = Some m" "nxt (heap s ! m) = Some a"
    | m where "proto s = Some m" "prev (heap s ! m) = Some a"
    by blast
  then show ?thesis
  proof cases
    case 1 then show ?thesis by (rule well_formedD(6) [OF wf])
  next
    case 2 then show ?thesis by (rule well_formedD(5) [OF wf])
  next
    case 3
    have m: "m < length (heap s)" using 3(1) by (rule well_formedD(6) [OF wf])
    from m 3(2) have "a < m" by (rule well_formedD(1) [OF wf])
    with m show ?thesis by simp
  next
    case 4
    have m: "m < length (heap s)" using 4(1) by (rule well_formedD(6) [OF wf])
    from m 4(2) have "m < a \<and> a < length (heap s)" by (rule well_formedD(2) [OF wf])
    then show ?thesis by simp
  qed
qed

lemma well_formed_remove:
  assumes wf: "well_formed s"
  shows "well_formed (remove k s)"
proof (cases "cache_get s k")
  case Missing
  with wf show ?thesis by (simp add: remove_def)
next
  case (Primitive v)
  have "well_formed (s\<lparr>tail := None, head := None,
      cache := (cache s)(k := None), size_lru := size_lru s - 1\<rparr>)"
    using wf by (rule well_formed_shrink) simp_all
  with wf Primitive show ?thesis by (simp add: remove_def)
next
  case Builtin
  have "well_formed (s\<lparr>tail := None, head := None,
      cache := (cache s)(k := None), size_lru := size_lru s - 1\<rparr>)"
    using wf by (rule well_formed_shrink) simp_all
  with Builtin show ?thesis by (simp add: remove_def)
next
  case (Node_at a)
  let ?h = "heap s" and ?h' = "unlinked (heap s) a"
  let ?s' = "s\<lparr>heap := ?h',
        tail := (case nxt (?h ! a) of None \<Rightarrow> prev (?h ! a) | Some n \<Rightarrow> tail s),
        head := (case prev (?h ! a) of None \<Rightarrow> nxt (?h ! a) | Some p \<Rightarrow> head s),
        cache := (cache s)(k := None), size_lru := size_lru s - 1\<rparr>"
  note n = well_formedD(1) [OF wf] and r = well_formedD(2) [OF wf]
  have a: "a < length ?h" using wf Node_at by (rule cache_get_bound)
  have "nxt (?h ! a) \<noteq> Some a"
  proof
    assume "nxt (?h ! a) = Some a"
    with a have "a < a" by (rule n)
    then show False by simp
  qed
  with Node_at have eq: "remove k s = ?s'" by (rule remove_unfold)
  have len: "length (heap ?s') = length ?h" by (simp add: length_unlinked)
  have "well_formed ?s'"
  proof (rule well_formedI)
    fix c b assume "c < length (heap ?s')" and "nxt (heap ?s' ! c) = Some b"
    then have c: "c < length ?h" and x: "nxt (?h' ! c) = Some b"
      by (simp_all add: length_unlinked)
    show "b < c"
    proof (cases "prev (?h ! a) = Some c")
      case True
      with x c have "nxt (?h ! a) = Some b" by (simp add: nxt_unlinked)
      with a have "b < a" by (rule n)
      moreover from a True have "a < c \<and> c < length ?h" by (rule r)
      ultimately show ?thesis by simp
    next
      case False
      with x have "nxt (?h ! c) = Some b" by (simp add: nxt_unlinked)
      with c show ?thesis by (rule n)
    qed
  next
    fix c b assume "c < length (heap ?s')" and "prev (heap ?s' ! c) = Some b"
    then have c: "c < length ?h" and x: "prev (?h' ! c) = Some b"
      by (simp_all add: length_unlinked)
    have "c < b \<and> b < length ?h"
    proof (cases "nxt (?h ! a) = Some c")
      case True
      with x c have "prev (?h ! a) = Some b" by (simp add: prev_unlinked)
      with a have "a < b \<and> b < length ?h" by (rule r)
      moreover from a True have "c < a" by (rule n)
      ultimately show ?thesis by simp
    next
      case False
      with x have "prev (?h ! c) = Some b" by (simp add: prev_unlinked)
      with c show ?thesis by (rule r)
    qed
    then show "c < b \<and> b < length (heap ?s')" by (simp add: length_unlinked)
  next
    fix b assume "head ?s' = Some b"
    then have "(prev (?h ! a) = None \<and> nxt (?h ! a) = Some b) \<or> head s = Some b"
      by (simp split: option.splits)
    then have "b < length ?h"
    proof
      assume "prev (?h ! a) = None \<and> nxt (?h ! a) = Some b"
      then have "nxt (?h ! a) = Some b" by simp
      with a have "b < a" by (rule n)
      with a show ?thesis by simp
    next
      assume "head s = Some b"
      then show ?thesis by (rule well_formedD(3) [OF wf])
    qed
    then show "b < length (heap ?s')" by (simp add: length_unlinked)
  next
    fix b assume "tail ?s' = Some b"
    then have "(nxt (?h ! a) = None \<and> prev (?h ! a) = Some b) \<or> tail s = Some b"
      by (simp split: option.splits)
    then have "b < length ?h"
    proof
      assume "nxt (?h ! a) = None \<and> prev (?h ! a) = Some b"
      then have "prev (?h ! a) = Some b" by simp
      with a have "a < b \<and> b < length ?h" by (rule r)
      then show ?thesis by simp
    next
      assume "tail s = Some b"
      then show ?thesis by (rule well_formedD(4) [OF wf])
    qed
    then show "b < length (heap ?s')" by (simp add: length_unlinked)
  next
    fix k' b assume "cache ?s' k' = Some b"
    then have "cache s k' = Some b" by (simp split: if_splits)
    then have "b < length ?h" by (rule well_formedD(5) [OF wf])
    then show "b < length (heap ?s')" by (simp add: length_unlinked)
  next
    fix b assume "proto ?s' = Some b"
    then have "proto s = Some b" by simp
    then have "b < length ?h" by (rule well_formedD(6) [OF wf])
    then show "b < length (heap ?s')" by (simp add: length_unlinked)
  qed
  with eq show ?thesis by simp
qed

lemma well_formed_enforceLimit:
  assumes "well_formed s" and "enforceLimit s = Inr s'"
  shows "well_formed s'"
proof (cases "limit s = size_lru s")
  case False
  with assms show ?thesis by (simp add: enforceLimit_def)
next
  case True
  with assms(2) obtain t where "s' = remove (key (heap s ! t)) s"
    by (auto simp: enforceLimit_def split: option.splits)
  with assms(1) show ?thesis by (simp add: well_formed_remove)
qed

lemma well_formed_link_head:
  assumes wf: "well_formed s"
  shows "well_formed (link_head k v s)"
proof -
  let ?h = "heap s" and ?s' = "link_head k v s"
  let ?n = "length (heap s)"
  note n = well_formedD(1) [OF wf] and r = well_formedD(2) [OF wf]
  have hd0: "head s = None \<or> (\<exists>h. head s = Some h \<and> h < ?n)"
  proof (cases "head s")
    case None then show ?thesis by simp
  next
    case (Some h)
    then have "h < ?n" by (rule well_formedD(3) [OF wf])
    with Some show ?thesis by simp
  qed
  note new = link_head_new [OF hd0, of k v]
  have len: "length (heap ?s') = Suc ?n" by (rule length_link_head)
  show ?thesis
  proof (rule well_formedI)
    fix a b assume "a < length (heap ?s')" and x: "nxt (heap ?s' ! a) = Some b"
    then consider "a = ?n" | "a < ?n" using len by linarith
    then show "b < a"
    proof cases
      case 1
      with x have "head s = Some b" by (simp add: new)
      then have "b < ?n" by (rule well_formedD(3) [OF wf])
      with 1 show ?thesis by simp
    next
      case 2
      with x have "nxt (?h ! a) = Some b" by (simp add: link_head_old)
      with 2 show ?thesis by (rule n)
    qed
  next
    fix a b assume "a < length (heap ?s')" and x: "prev (heap ?s' ! a) = Some b"
    then consider "a = ?n" | "a < ?n" using len by linarith
    then have "a < b \<and> b < Suc ?n"
    proof cases
      case 1 with x show ?thesis by (simp add: new)
    next
      case 2
      show ?thesis
      proof (cases "head s = Some a")
        case True
        with x 2 show ?thesis by (simp add: link_head_old)
      next
        case False
        with x 2 have "prev (?h ! a) = Some b" by (simp add: link_head_old)
        with 2 have "a < b \<and> b < ?n" by (rule r)
        then show ?thesis by simp
      qed
    qed
    then show "a < b \<and> b < length (heap ?s')" by (simp add: len)
  next
    fix a assume "head ?s' = Some a"
    then show "a < length (heap ?s')" by (simp add: link_head_head len)
  next
    fix a assume "tail ?s' = Some a"
    then have "a = ?n \<or> tail s = Some a"
      by (simp add: link_head_tail split: option.splits)
    then have "a < Suc ?n"
    proof
      assume "a = ?n" then show ?thesis by simp
    next
      assume "tail s = Some a"
      then have "a < ?n" by (rule well_formedD(4) [OF wf])
      then show ?thesis by simp
    qed
    then show "a < length (heap ?s')" by (simp add: len)
  next
    fix k' a assume "cache ?s' k' = Some a"
    then have "a = ?n \<or> cache s k' = Some a"
      by (simp add: link_head_cache split: if_splits)
    then have "a < Suc ?n"
    proof
      assume "a = ?n" then show ?thesis by simp
    next
      assume "cache s k' = Some a"
      then have "a < ?n" by (rule well_formedD(5) [OF wf])
      then show ?thesis by simp
    qed
    then show "a < length (heap ?s')" by (simp add: len)
  next
    fix a assume "proto ?s' = Some a"
    then have "a = ?n \<or> proto s = Some a"
      by (simp add: link_head_proto split: if_splits)
    then have "a < Suc ?n"
    proof
      assume "a = ?n" then show ?thesis by simp
    next
      assume "proto s = Some a"
      then have "a < ?n" by (rule well_formedD(6) [OF wf])
      then show ?thesis by simp
    qed
    then show "a < length (heap ?s')" by (simp add: len)
  qed
qed

lemma well_formed_add:
  assumes "well_formed s" and "add k v s = Inr s'"
  shows "well_formed s'"
proof -
  from assms(2) obtain s1 where e: "enforceLimit s = Inr s1" and s': "s' = link_head k v s1"
    by (auto simp: add_link_head split: sum.splits)
  from assms(1) e have "well_formed s1" by (rule well_formed_enforceLimit)
  then show ?thesis unfolding s' by (rule well_formed_link_head)
qed

lemma well_formed_read:
  assumes "well_formed s" and "read k s = Inr (v, s')"
  shows "well_formed s'"
proof (cases "truthy_found (cache_get s k)")
  case False
  with assms show ?thesis by (simp add: read_def)
next
  case True
  with assms(2) obtain w where "add k w (remove k s) = Inr s'"
    by (auto simp: read_def Let_def split: sum.splits)
  with well_formed_remove [OF assms(1)] show ?thesis by (rule well_formed_add)
qed

lemma well_formed_constructor: "well_formed (LRU_constructor lim)"
  by (rule well_formedI) (simp_all add: LRU_constructor_def)

lemma reachable_well_formed: "reachable s \<Longrightarrow> well_formed s"
proof (induction rule: reachable.induct)
  case (fresh lim)
  show ?case by (rule well_formed_constructor)
next
  case (after_add s k v s')
  then show ?case by (blast intro: well_formed_add)
next
  case (after_read s k v s')
  then show ?case by (blast intro: well_formed_read)
next
  case (after_remove s k)
  then show ?case by (blast intro: well_formed_remove)
qed

text \<open>The loop of \<open>contentsArray\<close> ends: each step goes to an older node.\<close>

lemma contentsLoop_total:
  assumes n: "\<And>a b. a < length h \<Longrightarrow> nxt (h ! a) = Some b \<Longrightarrow> b < a"
  shows "a < length h \<Longrightarrow> \<exists>vs. contentsLoop h (Some a) acc = Some (acc @ vs)"
proof (induction a arbitrary: acc rule: less_induct)
  case (less a)
  show ?case
  proof (cases "nxt (h ! a)")
    case None
    have "contentsLoop h (Some a) acc = contentsLoop h None (acc @ [val (h ! a)])"
      using None by (subst contentsLoop.simps) simp
    also have "\<dots> = Some (acc @ [val (h ! a)])"
      by (subst contentsLoop.simps) simp
    finally show ?thesis by blast
  next
    case (Some b)
    from less.prems Some have b: "b < a" by (rule n)
    with less.prems have "b < length h" by simp
    from less.IH [OF b this, of "acc @ [val (h ! a)]"] obtain vs
      where "contentsLoop h (Some b) (acc @ [val (h ! a)]) = Some ((acc @ [val (h ! a)]) @ vs)"
      by blast
    moreover have "contentsLoop h (Some a) acc = contentsLoop h (Some b) (acc @ [val (h ! a)])"
      using Some by (subst contentsLoop.simps) simp
    ultimately have "contentsLoop h (Some a) acc = Some (acc @ val (h ! a) # vs)"
      by simp
    then show ?thesis by blast
  qed
qed

lemma contentsArray_total:
  assumes wf: "well_formed s" and hd: "head s = Some a"
  shows "\<exists>vs. contentsArray s = Some (Inr (val (heap s ! a) # vs))"
proof -
  let ?h = "heap s"
  note n = well_formedD(1) [OF wf]
  have a: "a < length ?h" using hd by (rule well_formedD(3) [OF wf])
  show ?thesis
  proof (cases "nxt (?h ! a)")
    case None
    then have "contentsLoop ?h (nxt (?h ! a)) [val (?h ! a)] = Some [val (?h ! a)]"
      by (subst contentsLoop.simps) simp
    with hd show ?thesis by (simp add: contentsArray_def)
  next
    case (Some b)
    from a Some have "b < a" by (rule n)
    with a have "b < length ?h" by simp
    from contentsLoop_total [of ?h b "[val (?h ! a)]", OF n this] obtain vs
      where "contentsLoop ?h (Some b) [val (?h ! a)] = Some ([val (?h ! a)] @ vs)" by blast
    with Some hd show ?thesis by (simp add: contentsArray_def)
  qed
qed

text \<open>
  \<open>read\<close> of a key whose lookup is truthy, in any state: when it returns, the first node
  of the chain is a new node with the key and the value returned, and the lookup of the
  key finds that node.
\<close>

lemma read_found:
  assumes wf: "well_formed s" and t: "truthy_found (cache_get s k)"
    and rd: "read k s = Inr (v, s')"
  shows "\<exists>n vs. head s' = Some n \<and> key (heap s' ! n) = k \<and> val (heap s' ! n) = v \<and>
           cache_get s' k = Node_at n \<and> contentsArray s' = Some (Inr (v # vs))"
proof -
  from rd t obtain s1 where e: "enforceLimit (remove k s) = Inr s1"
    and s': "s' = link_head k v s1"
    by (auto simp: read_def Let_def add_link_head split: sum.splits)
  have w1: "well_formed s1"
    using well_formed_enforceLimit [OF well_formed_remove [OF wf] e] .
  let ?n = "length (heap s1)"
  have hd0: "head s1 = None \<or> (\<exists>h. head s1 = Some h \<and> h < ?n)"
  proof (cases "head s1")
    case None then show ?thesis by simp
  next
    case (Some h)
    then have "h < ?n" by (rule well_formedD(3) [OF w1])
    with Some show ?thesis by simp
  qed
  note new = link_head_new [OF hd0, of k v]
  have w': "well_formed s'" unfolding s' using w1 by (rule well_formed_link_head)
  have h': "head s' = Some ?n" by (simp add: s' link_head_head)
  from contentsArray_total [OF w' h'] obtain vs
    where c: "contentsArray s' = Some (Inr (val (heap s' ! ?n) # vs))" by blast
  have "key (heap s' ! ?n) = k" and vv: "val (heap s' ! ?n) = v"
    and "cache_get s' k = Node_at ?n"
    by (simp_all add: s' new cache_get_link_head)
  with h' c show ?thesis by auto
qed

subsection \<open>Reachable states\<close>


lemma plainly_reachable_chained:
  assumes "plainly_reachable s"
  shows "\<exists>ps. chained s ps \<and> (limit s = 0 \<longrightarrow> ps = [])"
  using assms
proof (induction rule: plainly_reachable.induct)
  case (plain_fresh lim)
  have "chained (LRU_constructor lim) []"
    using indexed_constructor by (simp add: indexed_def)
  then show ?case by blast
next
  case (plain_add s k v s')
  then obtain ps where ch: "chained s ps" and z: "limit s = 0 \<longrightarrow> ps = []" by blast
  have lim: "limit s \<noteq> 0"
  proof
    assume l: "limit s = 0"
    with z ch have "size_lru s = 0" and "tail s = None" by (simp_all add: chained_def)
    with l have "enforceLimit s = Inl TypeError" by (simp add: enforceLimit_def)
    with plain_add.hyps(3) show False by (simp add: add_link_head)
  qed
  from add_chained [OF ch lim plain_add.hyps(2), of v] plain_add.hyps(3) lim
  show ?case by auto
next
  case (plain_read s k v s')
  then obtain ps where ch: "chained s ps" and z: "limit s = 0 \<longrightarrow> ps = []" by blast
  show ?case
  proof (cases "cache s k")
    case None
    from read_absent [OF ch plain_read.hyps(2) None] plain_read.hyps(3) have "s' = s" by simp
    with ch z show ?thesis by blast
  next
    case (Some a)
    with ch have "a \<in> set ps" by (simp add: chained_def)
    with z have lim: "limit s \<noteq> 0" by auto
    from read_chained [OF ch lim Some] plain_read.hyps(3) lim show ?thesis by auto
  qed
next
  case (plain_remove s k)
  then obtain ps where ch: "chained s ps" and z: "limit s = 0 \<longrightarrow> ps = []" by blast
  show ?case
  proof (cases "cache s k")
    case None
    from ch have "proto s = None" by (simp add: chained_def)
    with None plain_remove.hyps(2) have "remove k s = s"
      by (simp add: remove_missing cache_get_plain_absent)
    with ch z show ?thesis by auto
  next
    case (Some a)
    with ch have m: "a \<in> set ps" by (simp add: chained_def)
    then obtain as bs where sp: "ps = as @ a # bs" by (auto dest: split_list)
    note r = remove_chained [OF ch [unfolded sp] Some]
    have "limit (remove k s) = limit s" by (simp add: r(2))
    with r(1) z m show ?thesis by auto
  qed
qed

lemma reachable_add_all:
  "reachable s \<Longrightarrow> add_all kvs s = Inr s' \<Longrightarrow> reachable s'"
proof (induction kvs arbitrary: s)
  case Nil
  then show ?case by simp
next
  case (Cons kv kvs)
  obtain k v where kv: "kv = (k, v)" by (cases kv)
  with Cons.prems(2) obtain s1 where a: "add k v s = Inr s1" and r: "add_all kvs s1 = Inr s'"
    by (auto split: sum.splits)
  from Cons.prems(1) a have "reachable s1" by (rule after_add)
  from Cons.IH [OF this r] show ?case .
qed

subsection \<open>Evaluation\<close>

lemmas eval_defs = add_def enforceLimit_def remove_def read_def LRU_constructor_def
  cache_get_def Object_prototype_names_def contentsArray_def memoized_call_def
  memoizedLRU_def JSON_stringify_def decimal.simps Let_def

lemma contentsLoop_None: "contentsLoop h None acc = Some acc"
  by (subst contentsLoop.simps) simp

lemma contentsLoop_Some:
  "contentsLoop h (Some a) acc = contentsLoop h (nxt (h ! a)) (acc @ [val (h ! a)])"
  by (subst contentsLoop.simps) simp

lemma two_entries_add:
  "add_all [(''1'', Str ''foo''), (''2'', Str ''bar'')] (LRU_constructor (Some 5)) = Inr two_entries"
  by (simp add: two_entries_def eval_defs fun_upd_twist)

lemma well_formed_two_entries: "well_formed two_entries"
  using reachable_well_formed [OF reachable_add_all [OF fresh two_entries_add]] .

lemma chained_two_entries: "chained two_entries [1, 0]"
  by (auto simp: chained_def two_entries_def plain_def Object_prototype_names_def)




lemma zero_entry_add: "add ''1'' (Number 0) (LRU_constructor (Some 3)) = Inr zero_entry"
  by (simp add: zero_entry_def eval_defs)

lemma chained_zero_entry: "chained zero_entry [0]"
  by (auto simp: chained_def zero_entry_def plain_def Object_prototype_names_def)

subsection \<open>The memoizing wrapper where it memoizes\<close>

lemma plain_JSON_stringify: "plain (JSON_stringify argsList)"
  by (simp add: plain_def JSON_stringify_def Object_prototype_names_def)

lemma memoized_call_hit:
  assumes "chained s ps" and "limit s \<noteq> 0" and "cache s (stringify argsList) = Some a"
    and "truthy (val (heap s ! a))"
  shows "\<exists>s'. memoized_call stringify otherFunc argsList \<lparr>memo = s, calls = n\<rparr>
                = Inr (val (heap s ! a), \<lparr>memo = s', calls = n\<rparr>)"
proof -
  from read_chained [OF assms(1,2,3)] obtain s'
    where "read (stringify argsList) s = Inr (val (heap s ! a), s')" by blast
  with assms(4) show ?thesis by (simp add: memoized_call_def)
qed

lemma memoized_call_miss:
  assumes "chained s ps" and "limit s \<noteq> 0" and "plain (stringify argsList)"
    and "cache s (stringify argsList) = None"
  shows "\<exists>s' b. memoized_call stringify otherFunc argsList \<lparr>memo = s, calls = n\<rparr>
                = Inr (otherFunc argsList, \<lparr>memo = s', calls = Suc n\<rparr>) \<and>
              cache s' (stringify argsList) = Some b \<and>
              val (heap s' ! b) = otherFunc argsList"
proof -
  from add_chained [OF assms(1,2,3), of "otherFunc argsList"]
  obtain s' b where "add (stringify argsList) (otherFunc argsList) s = Inr s'"
    and "cache s' (stringify argsList) = Some b" and "val (heap s' ! b) = otherFunc argsList"
    by blast
  with read_absent [OF assms(1,3,4)] show ?thesis
    by (simp add: memoized_call_def)
qed

section \<open>The claims\<close>

text \<open>
  C1. The capacity bound does not survive a key that is added twice. On a store of limit
  2, \<open>add(1, 1)\<close>, \<open>add(1, 2)\<close>, \<open>add(2, 3)\<close>, \<open>add(3, 4)\<close> end with \<open>size = 3\<close>: the
  second call leaves two nodes with key 1 in the chain; the third evicts through
  \<open>cache[tail.key]\<close>, which is the newer of the two, and deletes key 1 from the index; at
  the fourth, \<open>size\<close> equals \<open>limit\<close>, key 3 is not present, the key of the tail is no
  longer in the index, and \<open>remove\<close> removes nothing: three values are in the chain.
  (For keys that are not present in a store where no key was added twice,
  \<open>add_fresh_within_limit\<close> is the bound.)
\<close>

theorem capacity_exceeded:
  "map_sum id size_lru
     (add_all [(''1'', Number 1), (''1'', Number 2), (''2'', Number 3)]
        (LRU_constructor (Some 2))) = Inr 2 \<and>
   map_sum id (dom \<circ> cache)
     (add_all [(''1'', Number 1), (''1'', Number 2), (''2'', Number 3)]
        (LRU_constructor (Some 2))) = Inr {''2''} \<and>
   map_sum id size_lru
     (add_all [(''1'', Number 1), (''1'', Number 2), (''2'', Number 3), (''3'', Number 4)]
        (LRU_constructor (Some 2))) = Inr 3 \<and>
   map_sum id limit
     (add_all [(''1'', Number 1), (''1'', Number 2), (''2'', Number 3), (''3'', Number 4)]
        (LRU_constructor (Some 2))) = Inr 2 \<and>
   contentsArray
     (projr (add_all [(''1'', Number 1), (''1'', Number 2), (''2'', Number 3), (''3'', Number 4)]
        (LRU_constructor (Some 2))))
     = Some (Inr [Number 4, Number 3, Number 1])"
  by (simp add: eval_defs contentsLoop_None contentsLoop_Some)

text \<open>
  C2. \<open>add\<close> of a key that is present does not remove the old node. After
  \<open>add(1, 1)\<close> and \<open>add(1, 2)\<close> the chain holds both values; with \<open>remove(1)\<close> between
  the two calls it holds the new value only.
\<close>

theorem put_existing_keeps_old_entry:
  "contentsArray (projr (add_all [(''1'', Number 1), (''1'', Number 2)] (LRU_constructor (Some 3))))
     = Some (Inr [Number 2, Number 1]) \<and>
   contentsArray (projr (add ''1'' (Number 2)
       (remove ''1'' (projr (add ''1'' (Number 1) (LRU_constructor (Some 3)))))))
     = Some (Inr [Number 2])"
  by (simp add: eval_defs contentsLoop_None contentsLoop_Some)

text \<open>
  C3. After \<open>add(1, 1)\<close> and \<open>add(1, 2)\<close> on a fresh store of limit 3, \<open>size\<close> is 2
  while the index has the single key 1, and the two nodes of the chain both carry key 1.
  (In stores where no key was added twice the three properties hold: \<open>indexed_present\<close>,
  \<open>indexed_distinct_keys\<close>, \<open>indexed_card\<close>.)
\<close>

theorem duplicate_key_in_chain:
  "map_sum id size_lru
     (add_all [(''1'', Number 1), (''1'', Number 2)] (LRU_constructor (Some 3))) = Inr 2 \<and>
   map_sum id (dom \<circ> cache)
     (add_all [(''1'', Number 1), (''1'', Number 2)] (LRU_constructor (Some 3))) = Inr {''1''} \<and>
   map_sum id (map key \<circ> heap)
     (add_all [(''1'', Number 1), (''1'', Number 2)] (LRU_constructor (Some 3)))
     = Inr [''1'', ''1''] \<and>
   contentsArray
     (projr (add_all [(''1'', Number 1), (''1'', Number 2)] (LRU_constructor (Some 3))))
     = Some (Inr [Number 2, Number 1])"
  by (simp add: eval_defs contentsLoop_None contentsLoop_Some)




text \<open>
  C5, as stated, fails: the constructor checks nothing. A store built with limit \<open>-1\<close>
  exists and is usable: \<open>add(7, 1)\<close> succeeds and \<open>read(7)\<close> returns 1.
\<close>

theorem nonpositive_limit_counterexample:
  "limit (LRU_constructor (Some (- 1))) = - 1 \<and>
   map_sum id fst
     (read ''7'' (projr (add ''7'' (Number 1) (LRU_constructor (Some (- 1)))))) = Inr (Number 1)"
  by (simp add: eval_defs)

text \<open>
  C5, amended. Constructing a store with a capacity \<open>c \<le> 0\<close> does not fail: the result
  is a store with \<open>limit = c\<close> and \<open>size = 0\<close>. On that fresh store an \<open>add\<close> throws a
  \<open>TypeError\<close> when \<open>c = 0\<close>, and succeeds, with \<open>size = 1\<close>, when \<open>c < 0\<close>.
\<close>

theorem constructor_unvalidated:
  assumes "c \<le> 0"
  shows "limit (LRU_constructor (Some c)) = c \<and>
         size_lru (LRU_constructor (Some c)) = 0 \<and>
         map_sum id size_lru (add k v (LRU_constructor (Some c)))
           = (if c = 0 then Inl TypeError else Inr 1)"
  by (simp add: add_def enforceLimit_def LRU_constructor_def Let_def)

theorem constructor_unvalidated_witness:
  "(0::int) \<le> 0 \<and> limit (LRU_constructor (Some 0)) = 0 \<and>
   size_lru (LRU_constructor (Some 0)) = 0 \<and>
   map_sum id size_lru (add ''1'' Null (LRU_constructor (Some 0))) = Inl TypeError"
  using constructor_unvalidated [of 0 "''1''" Null] by simp

text \<open>
  C6. On a store without entries \<open>contentsArray()\<close> reads \<open>this.head.value\<close> with
  \<open>head = null\<close> and throws a \<open>TypeError\<close>; it does not return an empty array. (On a
  non-empty chain it returns the values from head to tail: \<open>contentsArray_chained\<close>.)
\<close>

theorem contentsArray_empty_throws:
  "contentsArray (LRU_constructor (Some 3)) = Some (Inl TypeError)"
  by (simp add: eval_defs)

text \<open>
  C7. In every state, whatever keys the store was used with: when the lookup of a key is
  truthy and \<open>read\<close> of that key returns, then \<open>head\<close> is a node with the key and the
  value returned, the lookup of the key finds that node, and the value is the first element
  of \<open>contentsArray()\<close>. Where the store is a chain with a plain index (as it is while every
  key passed is plain) and its limit is not 0, \<open>read\<close> of a key that is present does return,
  the node that held the key has left the chain, only nodes of the old chain follow the new
  one, and, unless the limit forces an eviction, these are all the other nodes in their
  old order.
\<close>

theorem read_promotes:
  assumes "well_formed s" and "truthy_found (cache_get s k)"
  shows "(\<forall>v s'. read k s = Inr (v, s') \<longrightarrow>
            (\<exists>n vs. head s' = Some n \<and> key (heap s' ! n) = k \<and> val (heap s' ! n) = v \<and>
                     cache_get s' k = Node_at n \<and> contentsArray s' = Some (Inr (v # vs)))) \<and>
         (\<forall>ps a. chained s ps \<and> limit s \<noteq> 0 \<and> cache s k = Some a \<longrightarrow>
            (\<exists>s' n ps'. read k s = Inr (val (heap s ! a), s') \<and> chained s' (n # ps') \<and>
                a \<notin> set ps' \<and> set ps' \<subseteq> set ps \<and>
                (limit s \<noteq> size_lru s - 1 \<longrightarrow> ps' = remove1 a ps) \<and>
                contentsArray s'
                  = Some (Inr (val (heap s ! a) # map (\<lambda>b. val (heap s ! b)) ps'))))"
proof (intro conjI allI impI)
  fix v s' assume "read k s = Inr (v, s')"
  with assms show "\<exists>n vs. head s' = Some n \<and> key (heap s' ! n) = k \<and> val (heap s' ! n) = v \<and>
      cache_get s' k = Node_at n \<and> contentsArray s' = Some (Inr (v # vs))"
    by (rule read_found)
next
  fix ps a assume "chained s ps \<and> limit s \<noteq> 0 \<and> cache s k = Some a"
  then have ch: "chained s ps" and lim: "limit s \<noteq> 0" and c: "cache s k = Some a"
    by simp_all
  from read_chained [OF ch lim c] obtain s' n ps'
    where rd: "read k s = Inr (val (heap s ! a), s')" and c': "chained s' (n # ps')"
      and vn: "val (heap s' ! n) = val (heap s ! a)"
      and out: "a \<notin> set ps'" and sub: "set ps' \<subseteq> set ps"
      and same: "limit s \<noteq> size_lru s - 1 \<longrightarrow> ps' = remove1 a ps"
      and old: "\<forall>b \<in> set ps'. key (heap s' ! b) = key (heap s ! b) \<and>
                          val (heap s' ! b) = val (heap s ! b)"
    by blast
  have "map (\<lambda>b. val (heap s' ! b)) ps' = map (\<lambda>b. val (heap s ! b)) ps'"
    using old by simp
  with contentsArray_chained [OF c'] vn
  have "contentsArray s' = Some (Inr (val (heap s ! a) # map (\<lambda>b. val (heap s ! b)) ps'))"
    by (simp add: entries_def comp_def)
  with rd c' out sub same
  show "\<exists>s' n ps'. read k s = Inr (val (heap s ! a), s') \<and> chained s' (n # ps') \<and>
      a \<notin> set ps' \<and> set ps' \<subseteq> set ps \<and>
      (limit s \<noteq> size_lru s - 1 \<longrightarrow> ps' = remove1 a ps) \<and>
      contentsArray s' = Some (Inr (val (heap s ! a) # map (\<lambda>b. val (heap s ! b)) ps'))"
    by blast
qed

theorem read_promotes_witness:
  "well_formed two_entries \<and> truthy_found (cache_get two_entries ''1'') \<and>
   chained two_entries [1, 0] \<and> limit two_entries \<noteq> 0 \<and> cache two_entries ''1'' = Some 0 \<and>
   contentsArray two_entries = Some (Inr [Str ''bar'', Str ''foo'']) \<and>
   (\<exists>s' n. read ''1'' two_entries = Inr (Str ''foo'', s') \<and> chained s' [n, 1] \<and>
      contentsArray s' = Some (Inr [Str ''foo'', Str ''bar'']) \<and>
      head s' = Some n \<and> key (heap s' ! n) = ''1'' \<and> cache_get s' ''1'' = Node_at n)"
proof -
  have c: "cache two_entries ''1'' = Some 0" and l: "limit two_entries \<noteq> 0"
    and sz: "limit two_entries \<noteq> size_lru two_entries - 1"
    and v: "val (heap two_entries ! 0) = Str ''foo''" "val (heap two_entries ! 1) = Str ''bar''"
    by (simp_all add: two_entries_def)
  have t: "truthy_found (cache_get two_entries ''1'')"
    by (simp add: cache_get_def two_entries_def)
  have before: "contentsArray two_entries = Some (Inr [Str ''bar'', Str ''foo''])"
    by (simp add: contentsArray_def two_entries_def contentsLoop_None contentsLoop_Some)
  note inst = read_promotes [OF well_formed_two_entries t]
  from inst have "\<forall>ps a. chained two_entries ps \<and> limit two_entries \<noteq> 0 \<and>
      cache two_entries ''1'' = Some a \<longrightarrow>
      (\<exists>s' n ps'. read ''1'' two_entries = Inr (val (heap two_entries ! a), s') \<and>
         chained s' (n # ps') \<and> a \<notin> set ps' \<and> set ps' \<subseteq> set ps \<and>
         (limit two_entries \<noteq> size_lru two_entries - 1 \<longrightarrow> ps' = remove1 a ps) \<and>
         contentsArray s'
           = Some (Inr (val (heap two_entries ! a) # map (\<lambda>b. val (heap two_entries ! b)) ps')))"
    by (rule conjunct2)
  with chained_two_entries l c obtain s' n ps'
    where rd: "read ''1'' two_entries = Inr (val (heap two_entries ! 0), s')"
      and ch0: "chained s' (n # ps')"
      and same: "limit two_entries \<noteq> size_lru two_entries - 1 \<longrightarrow> ps' = remove1 0 [1, 0]"
      and ca0: "contentsArray s'
        = Some (Inr (val (heap two_entries ! 0) # map (\<lambda>b. val (heap two_entries ! b)) ps'))"
    by blast
  from same sz have ps': "ps' = [1]" by simp
  from ch0 ps' have ch: "chained s' [n, 1]" by simp
  from ca0 ps' have ca: "contentsArray s'
        = Some (Inr (val (heap two_entries ! 0) # map (\<lambda>b. val (heap two_entries ! b)) [1]))"
    by simp
  from inst have "\<forall>v s'. read ''1'' two_entries = Inr (v, s') \<longrightarrow>
      (\<exists>n vs. head s' = Some n \<and> key (heap s' ! n) = ''1'' \<and> val (heap s' ! n) = v \<and>
         cache_get s' ''1'' = Node_at n \<and> contentsArray s' = Some (Inr (v # vs)))"
    by (rule conjunct1)
  with rd obtain m where "head s' = Some m" "key (heap s' ! m) = ''1''"
    "cache_get s' ''1'' = Node_at m"
    by blast
  moreover from ch have "head s' = Some n" by (rule head_chained)
  ultimately have "head s' = Some n \<and> key (heap s' ! n) = ''1'' \<and> cache_get s' ''1'' = Node_at n"
    by simp
  with rd ch ca v have "\<exists>s' n. read ''1'' two_entries = Inr (Str ''foo'', s') \<and>
      chained s' [n, 1] \<and> contentsArray s' = Some (Inr [Str ''foo'', Str ''bar'']) \<and>
      head s' = Some n \<and> key (heap s' ! n) = ''1'' \<and> cache_get s' ''1'' = Node_at n"
    by (intro exI [of _ s'] exI [of _ n]) simp
  with well_formed_two_entries t chained_two_entries l c before
  show ?thesis by (intro conjI)
qed

text \<open>
  C8, as stated, fails: with key 1 present and holding the falsy value 0, \<open>read(1)\<close>
  returns 0, not \<open>null\<close>.
\<close>

theorem read_falsy_counterexample:
  "add ''1'' (Number 0) (LRU_constructor (Some 3)) = Inr zero_entry \<and>
   cache zero_entry ''1'' = Some 0 \<and> val (heap zero_entry ! 0) = Number 0 \<and>
   \<not> truthy (Number 0) \<and>
   map_sum id fst (read ''1'' zero_entry) = Inr (Number 0) \<and>
   map_sum id fst (read ''1'' zero_entry) \<noteq> Inr Null"
  by (simp add: zero_entry_def eval_defs)

text \<open>
  C8, amended. In every state in which the lookup of a key finds a node with a falsy
  value, \<open>read\<close> of that key does not return \<open>null\<close> in place of the value: the test in
  \<open>read\<close> is on the node, not on its value, so whenever \<open>read\<close> returns, it returns the
  stored value. It does return where the store is a chain with a plain index (as it is while
  every key passed is plain) and its limit is not 0.
\<close>

theorem read_falsy_returned:
  assumes "cache_get s k = Node_at a" and "\<not> truthy (val (heap s ! a))"
  shows "(\<forall>v s'. read k s = Inr (v, s') \<longrightarrow> v = val (heap s ! a)) \<and>
         (\<forall>ps. chained s ps \<and> limit s \<noteq> 0 \<longrightarrow>
            (\<exists>s'. read k s = Inr (val (heap s ! a), s')))"
proof (intro conjI allI impI)
  fix v s' assume "read k s = Inr (v, s')"
  with assms(1) show "v = val (heap s ! a)"
    by (auto simp: read_def Let_def split: sum.splits)
next
  fix ps assume "chained s ps \<and> limit s \<noteq> 0"
  then have ch: "chained s ps" and lim: "limit s \<noteq> 0" by simp_all
  from ch have "proto s = None" by (simp add: chained_def)
  from cache_get_node_own [OF this assms(1)] have c: "cache s k = Some a" by simp
  from read_chained [OF ch lim c] show "\<exists>s'. read k s = Inr (val (heap s ! a), s')"
    by blast
qed

theorem read_falsy_returned_witness:
  "cache_get zero_entry ''1'' = Node_at 0 \<and> \<not> truthy (val (heap zero_entry ! 0)) \<and>
   chained zero_entry [0] \<and> limit zero_entry \<noteq> 0 \<and>
   (\<exists>s'. read ''1'' zero_entry = Inr (Number 0, s'))"
proof -
  have g: "cache_get zero_entry ''1'' = Node_at 0"
    and f: "\<not> truthy (val (heap zero_entry ! 0))"
    and z: "val (heap zero_entry ! 0) = Number 0" and l: "limit zero_entry \<noteq> 0"
    by (simp_all add: cache_get_def zero_entry_def)
  from read_falsy_returned [OF g f] chained_zero_entry l z g f
  show ?thesis by auto
qed

text \<open>
  C9. Two successive calls \<open>memoizedAddXY(0, 0)\<close>: the wrapped function returns 0, which
  is falsy, so the second call, although its key is present, takes the stored 0 for a miss
  and calls the wrapped function a second time. (For a truthy stored result and for a key
  that is absent the wrapper does what the claim says: \<open>memoized_call_hit\<close>,
  \<open>memoized_call_miss\<close>.)
\<close>

theorem memoized_falsy_recomputed:
  "map_sum id fst (memoized_call JSON_stringify addXY [Number 0, Number 0] memoizedLRU)
     = Inr (Number 0) \<and>
   map_sum id (calls \<circ> snd) (memoized_call JSON_stringify addXY [Number 0, Number 0] memoizedLRU)
     = Inr 1 \<and>
   map_sum id (calls \<circ> snd)
     (memoized_call JSON_stringify addXY [Number 0, Number 0]
        (snd (projr (memoized_call JSON_stringify addXY [Number 0, Number 0] memoizedLRU))))
     = Inr 2"
  by (simp add: eval_defs)




end
